theory Spec2Isabelle
  imports Complex_Main
begin

section \<open>Health store\<close>

text \<open>
  The service keeps one health record per source code in a map
  (\<^verbatim>\<open>sourceHealth: Map<string, {...}>\<close>).  JavaScript numbers are modelled
  as exact reals for latencies and timestamps and as naturals for the two
  counters; \<^verbatim>\<open>Date.now()\<close> is passed in as \<open>now\<close>.
\<close>

record health_rec =
  avgLatencyMs :: real
  successCount :: nat
  failureCount :: nat
  lastLatencyMs :: real
  lastUpdatedAt :: real

type_synonym source_health = "string \<rightharpoonup> health_rec"

definition updateHealth :: "source_health \<Rightarrow> string \<Rightarrow> bool \<Rightarrow> real \<Rightarrow> real \<Rightarrow> source_health" where
  "updateHealth sh sourceCode ok latencyMs now =
     (let rec0 = (case sh sourceCode of
                    Some r \<Rightarrow> r
                  | None \<Rightarrow> \<lparr>avgLatencyMs = latencyMs, successCount = 0, failureCount = 0,
                             lastLatencyMs = latencyMs, lastUpdatedAt = now\<rparr>);
          rec1 = rec0\<lparr>lastLatencyMs := latencyMs, lastUpdatedAt := now\<rparr>;
          rec2 = (if ok
                  then rec1\<lparr>successCount := successCount rec1 + 1,
                            avgLatencyMs := avgLatencyMs rec1 * 0.7 + latencyMs * 0.3\<rparr>
                  else rec1\<lparr>failureCount := failureCount rec1 + 1,
                            avgLatencyMs := avgLatencyMs rec1 * 0.8 + latencyMs * 0.2\<rparr>)
      in sh(sourceCode \<mapsto> rec2))"

definition getSourceScore :: "source_health \<Rightarrow> string \<Rightarrow> real" where
  "getSourceScore sh sourceCode =
     (case sh sourceCode of
        None \<Rightarrow> 0
      | Some r \<Rightarrow>
          (let tot = successCount r + failureCount r;
               successRate = (if tot > 0 then real (successCount r) / real tot else 0.5);
               latencyScore = 1 / max 100 (avgLatencyMs r)
           in successRate * 0.7 + latencyScore * 0.3))"


section \<open>Adaptive concurrency\<close>

text \<open>
  \<^verbatim>\<open>AGGREGATED_SEARCH_CONFIG\<close> is imported from a configuration module; its
  fields are parameters here, optional where the code reads them through
  \<^verbatim>\<open>??\<close> or \<^verbatim>\<open>||\<close>.
\<close>

record agg_config =
  baseConcurrency :: "int option"
  minConcurrency :: "int option"
  maxConcurrency :: "int option"
  topKFirstBatch :: "int option"
  earlyAbortAfterTopK :: bool

definition nullish :: "'a option \<Rightarrow> 'a \<Rightarrow> 'a" where
  "nullish v d = (case v of Some x \<Rightarrow> x | None \<Rightarrow> d)"

text \<open>\<^verbatim>\<open>navigator.connection.effectiveType\<close>, when it is a string.\<close>

definition getNetworkFactor :: "string option \<Rightarrow> real" where
  "getNetworkFactor effectiveType =
     (case effectiveType of
        Some ty \<Rightarrow>
          (if ty = ''slow-2g'' \<or> ty = ''2g'' then 0.4
           else if ty = ''3g'' then 0.7
           else if ty = ''4g'' then 1
           else 1)
      | None \<Rightarrow> 1)"

text \<open>The loop over \<^verbatim>\<open>selectedAPIs\<close>: the pair is (total, failureRatio) as the
  two accumulators stand after the loop.\<close>

fun health_totals :: "source_health \<Rightarrow> string list \<Rightarrow> nat \<times> nat \<Rightarrow> nat \<times> nat" where
  "health_totals sh [] acc = acc"
| "health_totals sh (i # ids) (tot, failures) =
     (case sh i of
        Some r \<Rightarrow> health_totals sh ids
                    (tot + (successCount r + failureCount r), failures + failureCount r)
      | None \<Rightarrow> health_totals sh ids (tot, failures))"

definition getAdaptiveConcurrency ::
  "agg_config \<Rightarrow> string option \<Rightarrow> source_health \<Rightarrow> string list \<Rightarrow> int" where
  "getAdaptiveConcurrency cfg effectiveType sh selectedAPIs =
     (let base = nullish (baseConcurrency cfg) 3;
          mn = nullish (minConcurrency cfg) 1;
          mx = nullish (maxConcurrency cfg) 6;
          netFactor = getNetworkFactor effectiveType;
          (tot, failures) = health_totals sh selectedAPIs (0, 0);
          failureRatio = (if tot > 0 then real failures / real tot else 0);
          healthFactor = max 0.6 (1 - failureRatio);
          c = round (real_of_int base * netFactor * healthFactor)
      in min mx (max mn c))"





section \<open>Result items and the session's duplicate filter\<close>

record VideoItem =
  vod_id :: string
  source_code :: string
  source_name :: string
  api_url :: "string option"

definition dedup_key :: "VideoItem \<Rightarrow> string" where
  "dedup_key item = source_code item @ ''_'' @ vod_id item"

text \<open>\<^verbatim>\<open>results.filter(item => ...)\<close> with its side effect on \<^verbatim>\<open>seen\<close>.\<close>

fun filter_new :: "VideoItem list \<Rightarrow> string set \<Rightarrow> VideoItem list \<times> string set" where
  "filter_new [] seen = ([], seen)"
| "filter_new (item # rest) seen =
     (if dedup_key item \<notin> seen
      then (let (keep, seen') = filter_new rest (insert (dedup_key item) seen)
            in (item # keep, seen'))
      else filter_new rest seen)"

section \<open>Concurrency limiter\<close>

text \<open>
  \<^verbatim>\<open>createConcurrencyLimiter(limit)\<close> closes over a counter \<^verbatim>\<open>running\<close> and a
  queue of thunks.  Tasks are named by the order of their
  \<^verbatim>\<open>run(task)\<close> call; a task is a function that returns a promise, as an
  async function always does.  Besides the two variables of the closure the state
  records which tasks were started (in order), which of them have not
  settled yet, and what the promise returned to each caller settled with.
\<close>

datatype ('v, 'e) settled = Fulfilled 'v | RejectedWith 'e

record ('v, 'e) limiter =
  lim_limit :: int
  lim_running :: int
  lim_queue :: "nat list"
  lim_submitted :: nat
  lim_started :: "nat list"
  lim_active :: "nat list"
  lim_outcome :: "nat \<rightharpoonup> ('v, 'e) settled"

definition createConcurrencyLimiter :: "int \<Rightarrow> ('v, 'e) limiter" where
  "createConcurrencyLimiter limit =
     \<lparr>lim_limit = limit, lim_running = 0, lim_queue = [], lim_submitted = 0,
      lim_started = [], lim_active = [], lim_outcome = Map.empty\<rparr>"

text \<open>\<^verbatim>\<open>next()\<close>: the thunk calls \<^verbatim>\<open>task()\<close>, whose promise is then pending.\<close>

definition lim_start :: "nat \<Rightarrow> ('v, 'e) limiter \<Rightarrow> ('v, 'e) limiter" where
  "lim_start t s = s\<lparr>lim_started := lim_started s @ [t], lim_active := lim_active s @ [t]\<rparr>"

function tryRun :: "('v, 'e) limiter \<Rightarrow> ('v, 'e) limiter" where
  "tryRun s =
     (if lim_running s < lim_limit s \<and> lim_queue s \<noteq> []
      then tryRun (lim_start (hd (lim_queue s))
                     (s\<lparr>lim_queue := tl (lim_queue s), lim_running := lim_running s + 1\<rparr>))
      else s)"
  by pat_completeness auto
termination
  by (relation "measure (\<lambda>s. length (lim_queue s))") (auto simp: lim_start_def)

declare tryRun.simps [simp del]

datatype ('v, 'e) lim_event =
  Submit
  | Settle nat "('v, 'e) settled"

text \<open>
  \<open>Submit\<close> is a call of the returned function: \<^verbatim>\<open>queue.push(run); tryRun()\<close>.
  \<open>Settle t r\<close> is the promise of a started task settling with \<open>r\<close>: the
  chain \<^verbatim>\<open>.then(resolve).catch(reject).finally(...)\<close> hands \<open>r\<close> to the caller,
  decrements \<^verbatim>\<open>running\<close> and calls \<^verbatim>\<open>tryRun()\<close>.  A promise settles once, and
  only a started task has one, so other \<open>Settle\<close> events change nothing.
\<close>

fun lim_step :: "('v, 'e) limiter \<Rightarrow> ('v, 'e) lim_event \<Rightarrow> ('v, 'e) limiter" where
  "lim_step s Submit =
     tryRun (s\<lparr>lim_queue := lim_queue s @ [lim_submitted s],
               lim_submitted := lim_submitted s + 1\<rparr>)"
| "lim_step s (Settle t r) =
     (if t \<in> set (lim_active s)
      then tryRun (s\<lparr>lim_outcome := (lim_outcome s)(t \<mapsto> r),
                     lim_active := removeAll t (lim_active s),
                     lim_running := lim_running s - 1\<rparr>)
      else s)"

definition lim_run :: "('v, 'e) limiter \<Rightarrow> ('v, 'e) lim_event list \<Rightarrow> ('v, 'e) limiter" where
  "lim_run s es = foldl lim_step s es"

text \<open>Tasks handed to the limiter whose caller has no outcome yet.\<close>

definition lim_unsettled :: "('v, 'e) limiter \<Rightarrow> nat" where
  "lim_unsettled s = length (lim_active s) + length (lim_queue s)"

text \<open>A list of settlements, each of a task that is running when its turn comes.\<close>

fun settles_running :: "('v, 'e) limiter \<Rightarrow> ('v, 'e) lim_event list \<Rightarrow> bool" where
  "settles_running s [] = True"
| "settles_running s (Submit # es) = False"
| "settles_running s (Settle t r # es) =
     (t \<in> set (lim_active s) \<and> settles_running (lim_step s (Settle t r)) es)"

section \<open>Single-source search: validation, request key, in-flight map\<close>

text \<open>
  Error values.  The code throws \<^verbatim>\<open>Error\<close> objects told apart by their
  message only; each message (and each foreign failure that can reach the
  \<^verbatim>\<open>catch\<close> blocks) is a constructor here, and the \<^verbatim>\<open>msg\<close> field of a response
  carries the constructor.  \<open>AbortError\<close> is the \<^verbatim>\<open>DOMException\<close> named
  \<^verbatim>\<open>'AbortError'\<close>.
\<close>

datatype failure =
  AbortError
  | MissingQuery
  | MissingCustomApi
  | InvalidApiSource
  | RequestFailed int
  | InvalidDataFormat
  | TypeError
  | SyntaxError
  | NetworkError
  | CallbackError

record SearchResponse =
  resp_code :: int
  resp_msg :: "failure option"
  resp_list :: "VideoItem list"

record api_site =
  site_api :: string
  site_name :: string

text \<open>
  \<^verbatim>\<open>API_SITES\<close>, \<^verbatim>\<open>API_CONFIG.search.path\<close> and \<^verbatim>\<open>PROXY_URL\<close> come from the
  configuration module and \<^verbatim>\<open>encodeURIComponent\<close> from the platform; all
  four are parameters.
\<close>

record api_env =
  API_SITES :: "string \<rightharpoonup> api_site"
  search_path :: string
  PROXY_URL :: string
  encodeURIComponent :: "string \<Rightarrow> string"

text \<open>An optional string argument is truthy when present and not empty.\<close>

definition truthy :: "string option \<Rightarrow> bool" where
  "truthy s = (case s of None \<Rightarrow> False | Some x \<Rightarrow> x \<noteq> [])"

text \<open>The synchronous head of \<^verbatim>\<open>searchVideos\<close>: the three checks, then the
  key under which the request is deduplicated.  After the checks a source
  other than \<^verbatim>\<open>custom\<close> is in the sites table.\<close>

definition request_key :: "api_env \<Rightarrow> string \<Rightarrow> string \<Rightarrow> string option \<Rightarrow> failure + string" where
  "request_key env query source customApi =
     (if query = [] then Inl MissingQuery
      else if source = ''custom'' \<and> \<not> truthy customApi then Inl MissingCustomApi
      else if API_SITES env source = None \<and> source \<noteq> ''custom'' then Inl InvalidApiSource
      else
        (let base = (case customApi of
                       Some url \<Rightarrow>
                         if url \<noteq> [] then url
                         else (case API_SITES env source of Some site \<Rightarrow> site_api site | None \<Rightarrow> [])
                     | None \<Rightarrow>
                         (case API_SITES env source of Some site \<Rightarrow> site_api site | None \<Rightarrow> []));
             apiUrl = base @ search_path env @ encodeURIComponent env query
         in Inr (PROXY_URL env @ encodeURIComponent env apiUrl)))"

text \<open>What the network can hand back to \<^verbatim>\<open>exec\<close>: \<^verbatim>\<open>fetch\<close> rejects (network
  failure, or an abort by the timeout or by the caller's signal), or it
  yields a response with a status whose \<^verbatim>\<open>json()\<close> either rejects or parses
  to a value.  Of a parsed value only the shape the code inspects is kept.\<close>

datatype json_item = Obj VideoItem | NonObj

datatype json_data = Falsy | NoList | HasList "json_item list"

datatype fetch_outcome =
  FetchRejected failure
  | HttpResponse int "failure + json_data"

definition response_ok :: "int \<Rightarrow> bool" where
  "response_ok status = (200 \<le> status \<and> status \<le> 299)"

text \<open>The label the code gives to items of a custom source is a fixed
  non-ASCII literal; it is written in English here.\<close>

definition custom_source_label :: string where
  "custom_source_label = ''custom source''"

record request =
  req_key :: string
  req_source :: string
  req_customApi :: "string option"
  req_start :: real

text \<open>\<^verbatim>\<open>data.list.forEach(item => ...)\<close>: writing a property of something that
  is not an object throws.\<close>

fun tag_items :: "api_env \<Rightarrow> request \<Rightarrow> json_item list \<Rightarrow> failure + VideoItem list" where
  "tag_items env rq [] = Inr []"
| "tag_items env rq (NonObj # rest) = Inl TypeError"
| "tag_items env rq (Obj item # rest) =
     (let nm = (if req_source rq = ''custom'' then custom_source_label
                else (case API_SITES env (req_source rq) of
                        Some site \<Rightarrow> site_name site | None \<Rightarrow> []));
          item' = item\<lparr>source_name := nm, source_code := req_source rq\<rparr>;
          item'' = (if req_source rq = ''custom''
                    then item'\<lparr>api_url := req_customApi rq\<rparr> else item')
      in case tag_items env rq rest of
           Inl e \<Rightarrow> Inl e
         | Inr items \<Rightarrow> Inr (item'' # items))"

text \<open>The \<^verbatim>\<open>try\<close> block of \<^verbatim>\<open>exec\<close> once the network has answered.\<close>

definition exec_body :: "api_env \<Rightarrow> request \<Rightarrow> fetch_outcome \<Rightarrow> failure + SearchResponse" where
  "exec_body env rq outcome =
     (case outcome of
        FetchRejected e \<Rightarrow> Inl e
      | HttpResponse status body \<Rightarrow>
          if \<not> response_ok status then Inl (RequestFailed status)
          else (case body of
                  Inl e \<Rightarrow> Inl e
                | Inr Falsy \<Rightarrow> Inl InvalidDataFormat
                | Inr NoList \<Rightarrow> Inl InvalidDataFormat
                | Inr (HasList raw) \<Rightarrow>
                    (case tag_items env rq raw of
                       Inl e \<Rightarrow> Inl e
                     | Inr items \<Rightarrow>
                         Inr \<lparr>resp_code = 200, resp_msg = None, resp_list = items\<rparr>)))"

record service =
  sourceHealth :: source_health
  inflightRequests :: "string \<rightharpoonup> nat"
  pending :: "nat \<rightharpoonup> request"
  next_promise :: nat
  fetch_log :: "string list"
  waiting :: "(nat \<times> nat) list"
  calls :: nat
  returned :: "nat \<rightharpoonup> failure + SearchResponse"

definition new_service :: "source_health \<Rightarrow> service" where
  "new_service sh =
     \<lparr>sourceHealth = sh, inflightRequests = Map.empty, pending = Map.empty, next_promise = 0,
      fetch_log = [], waiting = [], calls = 0, returned = Map.empty\<rparr>"

text \<open>\<^verbatim>\<open>exec\<close> from the answer of the network to its \<^verbatim>\<open>finally\<close>: the health
  record is written on either path, a failure is thrown again, and the key
  leaves the in-flight map.  The result is what the promise stored in the
  map settles with (\<open>Inl\<close>: rejected).\<close>

definition exec_finish ::
  "api_env \<Rightarrow> service \<Rightarrow> request \<Rightarrow> fetch_outcome \<Rightarrow> real \<Rightarrow> real \<Rightarrow> (failure + SearchResponse) \<times> service" where
  "exec_finish env s rq outcome end_t now =
     (let res = exec_body env rq outcome;
          ok = (case res of Inr _ \<Rightarrow> True | Inl _ \<Rightarrow> False);
          s1 = s\<lparr>sourceHealth :=
                   updateHealth (sourceHealth s) (req_source rq) ok (end_t - req_start rq) now\<rparr>;
          s2 = s1\<lparr>inflightRequests := (inflightRequests s1)(req_key rq := None)\<rparr>
      in (res, s2))"

text \<open>The outer \<^verbatim>\<open>try/catch\<close> of \<^verbatim>\<open>searchVideos\<close> around the awaited promise:
  whatever was thrown becomes a response with code 400.\<close>

definition searchVideos_result :: "failure + SearchResponse \<Rightarrow> failure + SearchResponse" where
  "searchVideos_result awaited =
     (case awaited of
        Inr result \<Rightarrow> Inr result
      | Inl error \<Rightarrow> Inr \<lparr>resp_code = 400, resp_msg = Some error, resp_list = []\<rparr>)"

fun deliver :: "nat \<Rightarrow> failure + SearchResponse \<Rightarrow> (nat \<times> nat) list \<Rightarrow>
    (nat \<rightharpoonup> failure + SearchResponse) \<Rightarrow> (nat \<rightharpoonup> failure + SearchResponse)" where
  "deliver p res [] m = m"
| "deliver p res ((c, q) # ws) m =
     deliver p res ws (if q = p then m(c \<mapsto> searchVideos_result res) else m)"

datatype svc_event =
  SearchCall string string "string option" real
  | FetchSettled nat fetch_outcome real real

text \<open>
  \<open>SearchCall query source customApi t\<close> is a call of \<^verbatim>\<open>searchVideos\<close> at
  \<^verbatim>\<open>performance.now() = t\<close>; callers are numbered in call order.  It runs up
  to the \<^verbatim>\<open>await\<close>: either a check throws and the call returns its code-400
  response, or the caller waits on the promise stored under the key, after
  \<^verbatim>\<open>exec()\<close> has started a fetch when the key was absent.
  \<open>FetchSettled p outcome t now\<close> is the network answering the fetch of
  promise \<open>p\<close>: \<^verbatim>\<open>exec\<close> runs to its end and every caller awaiting \<open>p\<close>
  resumes.
\<close>

fun svc_step :: "api_env \<Rightarrow> service \<Rightarrow> svc_event \<Rightarrow> service" where
  "svc_step env s (SearchCall query source customApi t) =
     (let c = calls s; s0 = s\<lparr>calls := c + 1\<rparr> in
      case request_key env query source customApi of
        Inl e \<Rightarrow> s0\<lparr>returned := (returned s0)(c \<mapsto> searchVideos_result (Inl e))\<rparr>
      | Inr k \<Rightarrow>
          (case inflightRequests s0 k of
             Some p \<Rightarrow> s0\<lparr>waiting := waiting s0 @ [(c, p)]\<rparr>
           | None \<Rightarrow>
               (let p = next_promise s0;
                    rq = \<lparr>req_key = k, req_source = source, req_customApi = customApi,
                          req_start = t\<rparr>
                in s0\<lparr>next_promise := p + 1,
                      fetch_log := fetch_log s0 @ [k],
                      pending := (pending s0)(p \<mapsto> rq),
                      inflightRequests := (inflightRequests s0)(k \<mapsto> p),
                      waiting := waiting s0 @ [(c, p)]\<rparr>)))"
| "svc_step env s (FetchSettled p outcome end_t now) =
     (case pending s p of
        None \<Rightarrow> s
      | Some rq \<Rightarrow>
          (let (res, s1) = exec_finish env s rq outcome end_t now
           in s1\<lparr>pending := (pending s1)(p := None),
                 returned := deliver p res (waiting s1) (returned s1),
                 waiting := filter (\<lambda>(c, q). q \<noteq> p) (waiting s1)\<rparr>))"

definition svc_run :: "api_env \<Rightarrow> service \<Rightarrow> svc_event list \<Rightarrow> service" where
  "svc_run env s es = foldl (svc_step env) s es"

text \<open>Whether an answer of the network makes the call fail, by the four
  causes the code distinguishes.\<close>

definition failing_outcome :: "fetch_outcome \<Rightarrow> bool" where
  "failing_outcome outcome =
     (case outcome of
        FetchRejected e \<Rightarrow> True
      | HttpResponse status body \<Rightarrow>
          \<not> response_ok status \<or>
          (case body of Inr (HasList raw) \<Rightarrow> False | _ \<Rightarrow> True))"

section \<open>Aggregated search\<close>

text \<open>
  One call of \<^verbatim>\<open>aggregatedSearch\<close> is a session.  JavaScript runs it on one
  thread, so the session is a state and a step function over the events
  that the environment can raise: a single-source search coming back, the
  limiter's \<^verbatim>\<open>finally\<close> callback of a task, and the external signal firing.
  Settling a promise is taken to reach \<^verbatim>\<open>Promise.all\<close> and \<^verbatim>\<open>Promise.race\<close>
  at once.
\<close>

record CustomApi =
  custom_url :: string
  custom_name :: string

text \<open>The surroundings of a call: configuration, the sites table, the
  caller's custom sources, the health store and the connection type as
  they are when the call is made, and the platform's \<^verbatim>\<open>parseInt\<close> (\<open>None\<close>
  for \<^verbatim>\<open>NaN\<close>).\<close>

record search_ctx =
  ctx_config :: agg_config
  ctx_env :: api_env
  ctx_customAPIs :: "CustomApi list"
  ctx_health :: source_health
  ctx_effectiveType :: "string option"
  ctx_parseInt :: "string \<Rightarrow> int option"

datatype promise_state = Pending | Resolved | Rejected failure

text \<open>A task is queued in the limiter, waits for \<^verbatim>\<open>searchSingleSource\<close>, has
  returned (its promise settled; \<open>Some e\<close> is a rejection) or has moreover
  been released by the limiter.\<close>

datatype task_status = Queued | Fetching | Returned "failure option" | Released "failure option"

text \<open>What the caller's \<^verbatim>\<open>onNewResults\<close> does when called: return, throw, or
  abort the external signal and return.\<close>

datatype callback = CbReturns | CbThrows | CbAborts

record session =
  dynamicLimit :: int
  orderedAPIs :: "string list"
  topK :: int
  running :: int
  queue :: "nat list"
  status :: "task_status list"
  aborted :: bool
  signal :: "bool option"
  seen :: "string set"
  reachedTopK :: nat
  perSourceControllers :: "(string \<times> nat) list"
  ctrl_aborted :: "nat set"
  signal_listeners :: "nat list"
  delivered :: "VideoItem list list"
  searched :: "nat list"
  result :: promise_state

text \<open>\<^verbatim>\<open>Map.set\<close> and \<^verbatim>\<open>Map.delete\<close> on \<^verbatim>\<open>perSourceControllers\<close>; the controller
  of task \<open>i\<close> is named \<open>i\<close>.\<close>

definition ctrl_set :: "(string \<times> nat) list \<Rightarrow> string \<Rightarrow> nat \<Rightarrow> (string \<times> nat) list" where
  "ctrl_set m a i = filter (\<lambda>(k, c). k \<noteq> a) m @ [(a, i)]"

definition ctrl_delete :: "(string \<times> nat) list \<Rightarrow> string \<Rightarrow> (string \<times> nat) list" where
  "ctrl_delete m a = filter (\<lambda>(k, c). k \<noteq> a) m"

definition abortRest :: "session \<Rightarrow> session" where
  "abortRest s = s\<lparr>ctrl_aborted := ctrl_aborted s \<union> set (map snd (perSourceControllers s))\<rparr>"

text \<open>The external signal fires: its listeners run in the order they were
  added: the flag, \<^verbatim>\<open>abortRest\<close>, the per-task listeners, the rejection of
  \<^verbatim>\<open>abortPromise\<close>.  A signal fires once.\<close>

definition fire_signal :: "session \<Rightarrow> session" where
  "fire_signal s =
     (if signal s = Some False
      then (let s1 = abortRest (s\<lparr>signal := Some True, aborted := True\<rparr>);
                s2 = s1\<lparr>ctrl_aborted := ctrl_aborted s1 \<union> set (signal_listeners s1)\<rparr>
            in s2\<lparr>result := (if result s2 = Pending then Rejected AbortError else result s2)\<rparr>)
      else s)"

definition is_fulfilled :: "task_status \<Rightarrow> bool" where
  "is_fulfilled st = (st = Returned None \<or> st = Released None)"

definition is_settled :: "task_status \<Rightarrow> bool" where
  "is_settled st = (st \<noteq> Queued \<and> st \<noteq> Fetching)"

definition all_fulfilled :: "session \<Rightarrow> bool" where
  "all_fulfilled s = (length (status s) = length (orderedAPIs s) \<and> list_all is_fulfilled (status s))"

definition all_settled :: "session \<Rightarrow> bool" where
  "all_settled s = (length (status s) = length (orderedAPIs s) \<and> list_all is_settled (status s))"

text \<open>The async function of task \<open>i\<close> returns (\<open>None\<close>) or throws (\<open>Some e\<close>):
  the limiter hands this on to \<^verbatim>\<open>Promise.all\<close>, which rejects with the first
  rejection and resolves when every task has fulfilled, and
  \<^verbatim>\<open>Promise.race\<close> passes on the first of that and the abort rejection.\<close>

definition settle_task :: "nat \<Rightarrow> failure option \<Rightarrow> session \<Rightarrow> session" where
  "settle_task i r s =
     (let s1 = s\<lparr>status := (status s)[i := Returned r]\<rparr>
      in s1\<lparr>result :=
              (if result s1 = Pending
               then (case r of
                       Some e \<Rightarrow> Rejected e
                     | None \<Rightarrow> if all_fulfilled s1 then Resolved else Pending)
               else result s1)\<rparr>)"

definition starts_with :: "string \<Rightarrow> string \<Rightarrow> bool" where
  "starts_with p s = (take (length p) s = p)"

text \<open>Whether the \<^verbatim>\<open>try\<close> block of a task reaches a \<^verbatim>\<open>searchSingleSource\<close> call.\<close>

definition calls_search :: "search_ctx \<Rightarrow> string \<Rightarrow> bool" where
  "calls_search ctx apiId =
     (if starts_with ''custom_'' apiId
      then (case ctx_parseInt ctx (drop 7 apiId) of
              None \<Rightarrow> False
            | Some idx \<Rightarrow> 0 \<le> idx \<and> nat idx < length (ctx_customAPIs ctx))
      else API_SITES (ctx_env ctx) apiId \<noteq> None)"

text \<open>The limiter starts task \<open>i\<close>, an index of \<^verbatim>\<open>orderedAPIs\<close>: the async
  function runs to its first \<^verbatim>\<open>await\<close>, or to its end when it never awaits.\<close>

definition start_task :: "search_ctx \<Rightarrow> nat \<Rightarrow> session \<Rightarrow> session" where
  "start_task ctx i s =
     (if aborted s then settle_task i None s
      else
        (let apiId = orderedAPIs s ! i;
             s1 = s\<lparr>perSourceControllers := ctrl_set (perSourceControllers s) apiId i\<rparr>;
             s2 = (case signal s1 of
                     None \<Rightarrow> s1
                   | Some True \<Rightarrow> s1\<lparr>ctrl_aborted := insert i (ctrl_aborted s1)\<rparr>
                   | Some False \<Rightarrow> s1\<lparr>signal_listeners := signal_listeners s1 @ [i]\<rparr>)
         in if calls_search ctx apiId
            then s2\<lparr>searched := searched s2 @ [i], status := (status s2)[i := Fetching]\<rparr>
            else settle_task i None
                   (s2\<lparr>perSourceControllers := ctrl_delete (perSourceControllers s2) apiId\<rparr>)))"

function sess_tryRun :: "search_ctx \<Rightarrow> session \<Rightarrow> session" where
  "sess_tryRun ctx s =
     (if running s < dynamicLimit s \<and> queue s \<noteq> []
      then sess_tryRun ctx (start_task ctx (hd (queue s))
                              (s\<lparr>queue := tl (queue s), running := running s + 1\<rparr>))
      else s)"
  by pat_completeness auto
termination
  by (relation "measure (\<lambda>(ctx, s). length (queue s))")
     (auto simp: start_task_def settle_task_def Let_def split: option.splits bool.splits)

declare sess_tryRun.simps [simp del]

text \<open>A task resumes after \<^verbatim>\<open>await searchSingleSource(...)\<close> with the list it
  returned or the error it threw, and runs to its end.\<close>

definition resume_task :: "search_ctx \<Rightarrow> nat \<Rightarrow> failure + VideoItem list \<Rightarrow> callback \<Rightarrow> session \<Rightarrow> session" where
  "resume_task ctx i outcome cb s =
     (let apiId = orderedAPIs s ! i;
          s1 = s\<lparr>perSourceControllers := ctrl_delete (perSourceControllers s) apiId\<rparr>;
          results = (case outcome of Inl e \<Rightarrow> [] | Inr items \<Rightarrow> items)
      in if aborted s1 then settle_task i None s1
         else
           (let (newUnique, seen') = filter_new results (seen s1);
                s2 = s1\<lparr>seen := seen'\<rparr>
            in if newUnique = [] then settle_task i None s2
               else
                 (let s3 = s2\<lparr>reachedTopK := reachedTopK s2 + 1,
                              delivered := delivered s2 @ [newUnique]\<rparr>
                  in case cb of
                       CbThrows \<Rightarrow> settle_task i (Some CallbackError) s3
                     | _ \<Rightarrow>
                         (let s4 = (if cb = CbAborts then fire_signal s3 else s3);
                              s5 = (if earlyAbortAfterTopK (ctx_config ctx) \<and>
                                       topK s4 \<le> int (reachedTopK s4) \<and> \<not> aborted s4
                                    then abortRest s4 else s4)
                          in settle_task i None s5))))"

text \<open>
  \<open>Fetched i outcome cb\<close>: the \<^verbatim>\<open>searchSingleSource\<close> call of task \<open>i\<close> comes
  back with \<open>outcome\<close>, and \<open>cb\<close> is what the callback does if the task
  calls it.  \<open>Release i\<close>: the limiter's \<^verbatim>\<open>finally\<close> callback runs for the
  returned task \<open>i\<close>.  \<open>Abort\<close>: the external signal fires.  An event that
  cannot happen in the state (no such task, or the task is not at that
  point) changes nothing.
\<close>

datatype sess_event =
  Fetched nat "failure + VideoItem list" callback
  | Release nat
  | Abort

fun sess_step :: "search_ctx \<Rightarrow> session \<Rightarrow> sess_event \<Rightarrow> session" where
  "sess_step ctx s (Fetched i outcome cb) =
     (if i < length (status s) \<and> status s ! i = Fetching
      then resume_task ctx i outcome cb s else s)"
| "sess_step ctx s (Release i) =
     (if i < length (status s)
      then (case status s ! i of
              Returned r \<Rightarrow>
                sess_tryRun ctx (s\<lparr>status := (status s)[i := Released r],
                                   running := running s - 1\<rparr>)
            | _ \<Rightarrow> s)
      else s)"
| "sess_step ctx s Abort = fire_signal s"

definition sess_run :: "search_ctx \<Rightarrow> session \<Rightarrow> sess_event list \<Rightarrow> session" where
  "sess_run ctx s es = foldl (sess_step ctx) s es"

text \<open>A session without tasks, for the two early returns.\<close>

definition no_session :: "bool option \<Rightarrow> promise_state \<Rightarrow> session" where
  "no_session sg r =
     \<lparr>dynamicLimit = 0, orderedAPIs = [], topK = 1, running = 0, queue = [], status = [],
      aborted = False, signal = sg, seen = {}, reachedTopK = 0, perSourceControllers = [],
      ctrl_aborted = {}, signal_listeners = [], delivered = [], searched = [], result = r\<rparr>"

text \<open>\<^verbatim>\<open>limiter(task)\<close> for the task of index \<open>i\<close>: push and \<^verbatim>\<open>tryRun()\<close>.\<close>

definition submit_task :: "search_ctx \<Rightarrow> session \<Rightarrow> nat \<Rightarrow> session" where
  "submit_task ctx s i =
     sess_tryRun ctx (s\<lparr>queue := queue s @ [i], status := status s @ [Queued]\<rparr>)"

text \<open>The synchronous body of \<^verbatim>\<open>aggregatedSearch\<close>; the argument \<open>sg\<close> is
  \<open>None\<close> without a signal and otherwise the signal's \<^verbatim>\<open>aborted\<close> flag.  The
  sort is the stable sort by descending score.\<close>

definition aggregatedSearch :: "search_ctx \<Rightarrow> string list \<Rightarrow> bool option \<Rightarrow> session" where
  "aggregatedSearch ctx selectedAPIs sg =
     (if selectedAPIs = [] then no_session sg Resolved
      else if sg = Some True then no_session sg (Rejected AbortError)
      else
        (let lim = getAdaptiveConcurrency (ctx_config ctx) (ctx_effectiveType ctx)
                     (ctx_health ctx) selectedAPIs;
             ordered = sort_key (\<lambda>a. - getSourceScore (ctx_health ctx) a) selectedAPIs;
             s0 = \<lparr>dynamicLimit = lim, orderedAPIs = ordered,
                   topK = max 1 (nullish (topKFirstBatch (ctx_config ctx)) 4),
                   running = 0, queue = [], status = [], aborted = False, signal = sg,
                   seen = {}, reachedTopK = 0, perSourceControllers = [], ctrl_aborted = {},
                   signal_listeners = [], delivered = [], searched = [], result = Pending\<rparr>
         in foldl (submit_task ctx) s0 [0..<length ordered]))"


section \<open>Invariants\<close>

text \<open>
  The limiter: the counter is the number of tasks running and stays within
  the limit; started tasks followed by queued tasks are the submission order;
  the running tasks are started ones, and exactly the started tasks that no
  longer run have an outcome; a non-empty queue means the limiter is full.
\<close>

definition lim_count :: "('v, 'e) limiter \<Rightarrow> bool" where
  "lim_count s \<longleftrightarrow> lim_running s = int (length (lim_active s)) \<and> lim_running s \<le> lim_limit s"

definition lim_fifo :: "('v, 'e) limiter \<Rightarrow> bool" where
  "lim_fifo s \<longleftrightarrow> lim_started s @ lim_queue s = [0..<lim_submitted s]"

definition lim_book :: "('v, 'e) limiter \<Rightarrow> bool" where
  "lim_book s \<longleftrightarrow> distinct (lim_active s) \<and> set (lim_active s) \<subseteq> set (lim_started s) \<and>
     dom (lim_outcome s) = set (lim_started s) - set (lim_active s)"

definition lim_inv :: "('v, 'e) limiter \<Rightarrow> bool" where
  "lim_inv s \<longleftrightarrow> lim_count s \<and> lim_fifo s \<and> lim_book s \<and>
     (lim_queue s \<noteq> [] \<longrightarrow> lim_limit s \<le> lim_running s)"

text \<open>
  The in-flight map: its entries are exactly the pending requests, each under
  its own key, and promise numbers are fresh.
\<close>

definition svc_inv :: "service \<Rightarrow> bool" where
  "svc_inv s \<longleftrightarrow>
     (\<forall>k p. inflightRequests s k = Some p \<longrightarrow> (\<exists>rq. pending s p = Some rq \<and> req_key rq = k)) \<and>
     (\<forall>p rq. pending s p = Some rq \<longrightarrow> inflightRequests s (req_key rq) = Some p) \<and>
     (\<forall>p rq. pending s p = Some rq \<longrightarrow> p < next_promise s)"

text \<open>
  A session: queued indices are distinct tasks in state \<open>Queued\<close>; a fired
  signal has set the flag; the returned promise agrees with the tasks and
  the signal; the controller map holds exactly the controllers of the tasks in
  flight, and only started tasks have an aborted controller or a listener
  on the signal.
\<close>

definition is_rejected :: "task_status \<Rightarrow> bool" where
  "is_rejected st = (case st of Returned (Some e) \<Rightarrow> True | Released (Some e) \<Rightarrow> True | _ \<Rightarrow> False)"

definition queue_ok :: "session \<Rightarrow> bool" where
  "queue_ok s \<longleftrightarrow> distinct (queue s) \<and> length (status s) \<le> length (orderedAPIs s) \<and>
     (\<forall>j\<in>set (queue s). j < length (status s) \<and> status s ! j = Queued)"

definition sig_ok :: "session \<Rightarrow> bool" where
  "sig_ok s \<longleftrightarrow> (signal s = Some True \<longrightarrow> aborted s \<or> status s = [])"

definition res_ok :: "session \<Rightarrow> bool" where
  "res_ok s \<longleftrightarrow>
     (result s = Resolved \<longrightarrow> all_fulfilled s) \<and>
     (result s = Pending \<longrightarrow>
        signal s \<noteq> Some True \<and> \<not> all_settled s \<and>
        (\<forall>j<length (status s). \<not> is_rejected (status s ! j))) \<and>
     (\<forall>e. result s = Rejected e \<longrightarrow>
        (e = AbortError \<and> signal s = Some True) \<or>
        (\<exists>j<length (status s). is_rejected (status s ! j)))"

definition sess_inv :: "session \<Rightarrow> bool" where
  "sess_inv s \<longleftrightarrow> res_ok s \<and> queue_ok s"


definition ctrl_ok :: "session \<Rightarrow> bool" where
  "ctrl_ok s \<longleftrightarrow> distinct (orderedAPIs s) \<and>
     (\<forall>j<length (status s). status s ! j = Fetching \<longrightarrow>
        (orderedAPIs s ! j, j) \<in> set (perSourceControllers s)) \<and>
     (\<forall>a j. (a, j) \<in> set (perSourceControllers s) \<longrightarrow>
        j < length (status s) \<and> status s ! j = Fetching \<and> a = orderedAPIs s ! j) \<and>
     (\<forall>j\<in>ctrl_aborted s. j < length (status s) \<and> status s ! j \<noteq> Queued) \<and>
     (\<forall>j\<in>set (signal_listeners s). j < length (status s) \<and> status s ! j \<noteq> Queued)"

section \<open>Example data\<close>



definition default_config :: agg_config where
  "default_config = \<lparr>baseConcurrency = Some 3, minConcurrency = Some 1, maxConcurrency = Some 6,
                      topKFirstBatch = Some 4, earlyAbortAfterTopK = True\<rparr>"

text \<open>A limiter of limit 2 after three submissions, and the settlement of
  its three tasks, the first by a rejection.\<close>

definition three_queued :: "(nat, nat) limiter" where
  "three_queued =
     \<lparr>lim_limit = 2, lim_running = 2, lim_queue = [2], lim_submitted = 3,
      lim_started = [0, 1], lim_active = [0, 1], lim_outcome = Map.empty\<rparr>"

definition three_settle :: "(nat, nat) lim_event list" where
  "three_settle = [Settle 0 (RejectedWith 7), Settle 1 (Fulfilled 8), Settle 2 (Fulfilled 9)]"

text \<open>One site \<open>a\<close>, two overlapping searches for the same query on it, and
  the network failing the shared request.\<close>

definition demo_env :: api_env where
  "demo_env = \<lparr>API_SITES = [''a'' \<mapsto> \<lparr>site_api = ''http://a'', site_name = ''A''\<rparr>],
               search_path = ''?wd='', PROXY_URL = ''/proxy?url='',
               encodeURIComponent = (\<lambda>s. s)\<rparr>"

definition demo_key :: string where
  "demo_key = ''/proxy?url=http://a?wd=q''"

definition demo_calls :: "svc_event list" where
  "demo_calls = [SearchCall ''q'' ''a'' None 0, SearchCall ''q'' ''a'' None 1]"

definition demo_failed :: "svc_event list" where
  "demo_failed = demo_calls @ [FetchSettled 0 (FetchRejected NetworkError) 5 100]"

text \<open>Sessions on an empty health store and an unknown connection type:
  a sites table for given names, items, and the state of
  \<^verbatim>\<open>aggregatedSearch\<close> just before the tasks are handed to the limiter.\<close>

definition site_of :: "string \<Rightarrow> api_site" where
  "site_of n = \<lparr>site_api = ''http://'' @ n, site_name = n\<rparr>"

definition sites_env :: "string list \<Rightarrow> api_env" where
  "sites_env names =
     \<lparr>API_SITES = map_of (map (\<lambda>n. (n, site_of n)) names), search_path = ''?wd='',
      PROXY_URL = ''/proxy?url='', encodeURIComponent = (\<lambda>s. s)\<rparr>"

definition fresh_ctx :: "agg_config \<Rightarrow> string list \<Rightarrow> search_ctx" where
  "fresh_ctx cfg names =
     \<lparr>ctx_config = cfg, ctx_env = sites_env names, ctx_customAPIs = [],
      ctx_health = Map.empty, ctx_effectiveType = None, ctx_parseInt = (\<lambda>s. None)\<rparr>"

definition item_of :: "string \<Rightarrow> string \<Rightarrow> VideoItem" where
  "item_of src vid = \<lparr>vod_id = vid, source_code = src, source_name = src, api_url = None\<rparr>"

definition fresh_session :: "agg_config \<Rightarrow> string list \<Rightarrow> bool option \<Rightarrow> session" where
  "fresh_session cfg sel sg =
     \<lparr>dynamicLimit = min (nullish (maxConcurrency cfg) 6)
                        (max (nullish (minConcurrency cfg) 1) (nullish (baseConcurrency cfg) 3)),
      orderedAPIs = sel, topK = max 1 (nullish (topKFirstBatch cfg) 4),
      running = 0, queue = [], status = [], aborted = False, signal = sg,
      seen = {}, reachedTopK = 0, perSourceControllers = [], ctrl_aborted = {},
      signal_listeners = [], delivered = [], searched = [], result = Pending\<rparr>"

text \<open>Five sources under top-K 2 with the default limit of three and with
  a limit of five; the first two sources contributing one item each.\<close>

definition five :: "string list" where
  "five = [''s1'', ''s2'', ''s3'', ''s4'', ''s5'']"

definition top2_config :: agg_config where
  "top2_config = \<lparr>baseConcurrency = Some 3, minConcurrency = Some 1, maxConcurrency = Some 6,
                   topKFirstBatch = Some 2, earlyAbortAfterTopK = True\<rparr>"

definition wide_config :: agg_config where
  "wide_config = \<lparr>baseConcurrency = Some 5, minConcurrency = Some 1, maxConcurrency = Some 6,
                   topKFirstBatch = Some 2, earlyAbortAfterTopK = True\<rparr>"

definition i1 :: VideoItem where
  "i1 = item_of ''s1'' ''1''"

definition i2 :: VideoItem where
  "i2 = item_of ''s2'' ''1''"

definition two_contributed :: "sess_event list" where
  "two_contributed = [Fetched 0 (Inr [i1]) CbReturns, Release 0, Fetched 1 (Inr [i2]) CbReturns]"

text \<open>Two sources, and two sources whose codes and item ids collide in the key.\<close>

definition pair :: "string list" where
  "pair = [''s1'', ''s2'']"

definition clash1 :: VideoItem where
  "clash1 = item_of ''a_b'' ''c''"

definition clash2 :: VideoItem where
  "clash2 = item_of ''a'' ''b_c''"

definition clash_ctx :: search_ctx where
  "clash_ctx = fresh_ctx default_config [''a_b'', ''a'']"

definition clash_run :: "sess_event list" where
  "clash_run = [Fetched 0 (Inr [clash1]) CbReturns, Fetched 1 (Inr [clash2]) CbReturns]"

section \<open>Verification\<close>




















lemma filter_new_seen: "dedup_key item \<in> sn \<Longrightarrow> item \<notin> set (fst (filter_new items sn))"
proof (induction items arbitrary: sn)
  case Nil
  then show ?case by simp
next
  case (Cons x xs)
  show ?case
  proof (cases "dedup_key x \<in> sn")
    case True
    then show ?thesis using Cons by simp
  next
    case False
    then have "item \<noteq> x" using Cons.prems by auto
    moreover have "item \<notin> set (fst (filter_new xs (insert (dedup_key x) sn)))"
      using Cons.IH[of "insert (dedup_key x) sn"] Cons.prems by simp
    ultimately show ?thesis using False by (simp add: split_beta)
  qed
qed

lemma tryRun_unfold:
  assumes "lim_running s < lim_limit s" "lim_queue s = t # q"
  shows "tryRun s = tryRun (lim_start t (s\<lparr>lim_queue := q, lim_running := lim_running s + 1\<rparr>))"
  using assms by (subst tryRun.simps) simp

lemma tryRun_stop:
  assumes "\<not> (lim_running s < lim_limit s \<and> lim_queue s \<noteq> [])"
  shows "tryRun s = s"
  using assms tryRun.simps[of s] by auto

lemma tryRun_rule:
  assumes "P s"
    and "\<And>s t q. P s \<Longrightarrow> lim_running s < lim_limit s \<Longrightarrow> lim_queue s = t # q \<Longrightarrow>
           P (lim_start t (s\<lparr>lim_queue := q, lim_running := lim_running s + 1\<rparr>))"
  shows "P (tryRun s)"
  using assms(1)
proof (induction s rule: tryRun.induct)
  case (1 s)
  show ?case
  proof (cases "lim_running s < lim_limit s \<and> lim_queue s \<noteq> []")
    case False
    show ?thesis unfolding tryRun_stop[OF False] by (rule 1(2))
  next
    case True
    then obtain t q where q: "lim_queue s = t # q" by (cases "lim_queue s") auto
    have r: "lim_running s < lim_limit s" using True by simp
    let ?s' = "lim_start t (s\<lparr>lim_queue := q, lim_running := lim_running s + 1\<rparr>)"
    have s': "lim_start (hd (lim_queue s))
          (s\<lparr>lim_queue := tl (lim_queue s), lim_running := lim_running s + 1\<rparr>) = ?s'"
      by (simp add: q)
    have "P ?s'" by (rule assms(2)[OF 1(2) r q])
    then have "P (tryRun ?s')" using 1(1)[OF True] unfolding s' by blast
    then show ?thesis unfolding tryRun_unfold[OF r q] .
  qed
qed

lemma tryRun_busy: "lim_queue (tryRun s) \<noteq> [] \<Longrightarrow> lim_limit (tryRun s) \<le> lim_running (tryRun s)"
proof (induction s rule: tryRun.induct)
  case (1 s)
  show ?case
  proof (cases "lim_running s < lim_limit s \<and> lim_queue s \<noteq> []")
    case False
    show ?thesis using 1(2) False unfolding tryRun_stop[OF False] by auto
  next
    case True
    then obtain t q where q: "lim_queue s = t # q" by (cases "lim_queue s") auto
    have r: "lim_running s < lim_limit s" using True by simp
    have s': "lim_start (hd (lim_queue s))
          (s\<lparr>lim_queue := tl (lim_queue s), lim_running := lim_running s + 1\<rparr>) =
          lim_start t (s\<lparr>lim_queue := q, lim_running := lim_running s + 1\<rparr>)"
      by (simp add: q)
    show ?thesis using 1(1)[OF True] 1(2) unfolding tryRun_unfold[OF r q] s' by blast
  qed
qed

lemma tryRun_count: "lim_count s \<Longrightarrow> lim_count (tryRun s)"
  by (rule tryRun_rule) (simp_all add: lim_count_def lim_start_def)

lemma tryRun_fifo: "lim_fifo s \<Longrightarrow> lim_fifo (tryRun s)"
  by (rule tryRun_rule) (simp_all add: lim_fifo_def lim_start_def)

lemma tryRun_limit: "lim_limit (tryRun s) = lim_limit s"
  by (rule tryRun_rule[where P="\<lambda>x. lim_limit x = lim_limit s"]) (simp_all add: lim_start_def)

lemma tryRun_submitted: "lim_submitted (tryRun s) = lim_submitted s"
  by (rule tryRun_rule[where P="\<lambda>x. lim_submitted x = lim_submitted s"]) (simp_all add: lim_start_def)

lemma tryRun_outcome: "lim_outcome (tryRun s) = lim_outcome s"
  by (rule tryRun_rule[where P="\<lambda>x. lim_outcome x = lim_outcome s"]) (simp_all add: lim_start_def)

lemma tryRun_unsettled: "lim_unsettled (tryRun s) = lim_unsettled s"
  by (rule tryRun_rule[where P="\<lambda>x. lim_unsettled x = lim_unsettled s"])
     (simp_all add: lim_start_def lim_unsettled_def)

lemma tryRun_book:
  assumes "lim_fifo s \<and> lim_book s"
  shows "lim_fifo (tryRun s) \<and> lim_book (tryRun s)"
proof (rule tryRun_rule[where P="\<lambda>x. lim_fifo x \<and> lim_book x"])
  show "lim_fifo s \<and> lim_book s" by (rule assms)
next
  fix s :: "('v, 'e) limiter" and t q
  assume a: "lim_fifo s \<and> lim_book s" and q: "lim_queue s = t # q"
  have "distinct (lim_started s @ t # q)" using a q by (simp add: lim_fifo_def)
  then have t: "t \<notin> set (lim_started s)" by simp
  then have t': "t \<notin> set (lim_active s)" using a by (auto simp: lim_book_def)
  have "lim_fifo (lim_start t (s\<lparr>lim_queue := q, lim_running := lim_running s + 1\<rparr>))"
    using a q by (simp add: lim_fifo_def lim_start_def)
  moreover have "lim_book (lim_start t (s\<lparr>lim_queue := q, lim_running := lim_running s + 1\<rparr>))"
    using a t t' unfolding lim_book_def lim_start_def by auto
  ultimately show "lim_fifo (lim_start t (s\<lparr>lim_queue := q, lim_running := lim_running s + 1\<rparr>)) \<and>
     lim_book (lim_start t (s\<lparr>lim_queue := q, lim_running := lim_running s + 1\<rparr>))" by simp
qed

lemma tryRun_inv: "lim_count s \<Longrightarrow> lim_fifo s \<Longrightarrow> lim_book s \<Longrightarrow> lim_inv (tryRun s)"
  using tryRun_count[of s] tryRun_book[of s] tryRun_busy[of s] by (simp add: lim_inv_def)

lemma lim_step_inv:
  assumes "lim_inv s"
  shows "lim_inv (lim_step s e)"
proof (cases e)
  case Submit
  let ?s' = "s\<lparr>lim_queue := lim_queue s @ [lim_submitted s], lim_submitted := lim_submitted s + 1\<rparr>"
  have "lim_started s @ lim_queue s = [0..<lim_submitted s]"
    using assms(1) by (simp add: lim_inv_def lim_fifo_def)
  then have "lim_started s @ lim_queue s @ [lim_submitted s] = [0..<lim_submitted s + 1]"
    by (metis Suc_eq_plus1 append_assoc upt_Suc_append zero_le)
  then have "lim_fifo ?s'" by (simp add: lim_fifo_def)
  moreover have "lim_count ?s'" using assms by (simp add: lim_inv_def lim_count_def)
  moreover have "lim_book ?s'" using assms by (simp add: lim_inv_def lim_book_def)
  ultimately show ?thesis using Submit by (simp add: tryRun_inv)
next
  case (Settle t r)
  show ?thesis
  proof (cases "t \<in> set (lim_active s)")
    case False
    then show ?thesis using Settle assms by simp
  next
    case True
    let ?s' = "s\<lparr>lim_outcome := (lim_outcome s)(t \<mapsto> r),
                     lim_active := removeAll t (lim_active s),
                     lim_running := lim_running s - 1\<rparr>"
    have d: "distinct (lim_active s)" using assms by (simp add: lim_inv_def lim_book_def)
    have len: "length (removeAll t (lim_active s)) = length (lim_active s) - 1"
      using True d by (simp add: distinct_remove1_removeAll[symmetric] length_remove1)
    have pos: "0 < length (lim_active s)" using True by (cases "lim_active s") auto
    have "int (length (lim_active s) - 1) = int (length (lim_active s)) - 1"
      using pos by linarith
    then have "lim_count ?s'" using assms len by (simp add: lim_inv_def lim_count_def)
    moreover have "lim_fifo ?s'" using assms by (simp add: lim_inv_def lim_fifo_def)
    moreover have "lim_book ?s'"
      using assms True d unfolding lim_inv_def lim_book_def by (auto simp: distinct_removeAll)
    ultimately show ?thesis using Settle True by (simp add: tryRun_inv)
  qed
qed

lemma lim_run_inv: "lim_inv s \<Longrightarrow> lim_inv (lim_run s es)"
  unfolding lim_run_def by (induction es arbitrary: s) (simp_all add: lim_step_inv)

lemma lim_init_inv: "0 \<le> limit \<Longrightarrow> lim_inv (createConcurrencyLimiter limit)"
  by (simp add: lim_inv_def lim_count_def lim_fifo_def lim_book_def createConcurrencyLimiter_def)

lemma lim_step_limit: "lim_limit (lim_step s e) = lim_limit s"
  by (cases e) (simp_all add: tryRun_limit)

lemma lim_run_limit: "lim_limit (lim_run s es) = lim_limit s"
  unfolding lim_run_def by (induction es arbitrary: s) (simp_all add: lim_step_limit)

lemma lim_run_append: "lim_run s (es @ es') = lim_run (lim_run s es) es'"
  by (simp add: lim_run_def)

lemma lim_inv_progress:
  assumes "lim_inv s" "1 \<le> lim_limit s" "0 < lim_unsettled s"
  shows "lim_active s \<noteq> []"
proof
  assume a: "lim_active s = []"
  then have "lim_queue s \<noteq> []" using assms(3) by (simp add: lim_unsettled_def)
  then have "lim_limit s \<le> lim_running s" using assms(1) by (simp add: lim_inv_def)
  moreover have "lim_running s = 0" using assms(1) a by (simp add: lim_inv_def lim_count_def)
  ultimately show False using assms(2) by simp
qed

lemma settle_outcome:
  "t \<in> set (lim_active s) \<Longrightarrow> lim_outcome (lim_step s (Settle t r)) = (lim_outcome s)(t \<mapsto> r)"
  by (simp add: tryRun_outcome)

lemma tryRun_outcome_update:
  "tryRun (s\<lparr>lim_outcome := m\<rparr>) = (tryRun s)\<lparr>lim_outcome := m\<rparr>"
proof (induction s rule: tryRun.induct)
  case (1 s)
  show ?case
  proof (cases "lim_running s < lim_limit s \<and> lim_queue s \<noteq> []")
    case False
    then have "\<not> (lim_running (s\<lparr>lim_outcome := m\<rparr>) < lim_limit (s\<lparr>lim_outcome := m\<rparr>) \<and>
      lim_queue (s\<lparr>lim_outcome := m\<rparr>) \<noteq> [])" by simp
    then show ?thesis unfolding tryRun_stop[OF False] by (rule tryRun_stop)
  next
    case True
    then obtain t q where q: "lim_queue s = t # q" by (cases "lim_queue s") auto
    have r: "lim_running s < lim_limit s" using True by simp
    have s': "lim_start (hd (lim_queue s))
          (s\<lparr>lim_queue := tl (lim_queue s), lim_running := lim_running s + 1\<rparr>) =
          lim_start t (s\<lparr>lim_queue := q, lim_running := lim_running s + 1\<rparr>)"
      by (simp add: q)
    have "tryRun (s\<lparr>lim_outcome := m\<rparr>) =
          tryRun (lim_start t (s\<lparr>lim_outcome := m, lim_queue := q, lim_running := lim_running s + 1\<rparr>))"
      using tryRun_unfold[of "s\<lparr>lim_outcome := m\<rparr>" t q] r q by simp
    also have "lim_start t (s\<lparr>lim_outcome := m, lim_queue := q, lim_running := lim_running s + 1\<rparr>) =
          (lim_start t (s\<lparr>lim_queue := q, lim_running := lim_running s + 1\<rparr>))\<lparr>lim_outcome := m\<rparr>"
      by (simp add: lim_start_def)
    also have "tryRun \<dots> = (tryRun (lim_start t (s\<lparr>lim_queue := q, lim_running := lim_running s + 1\<rparr>)))\<lparr>lim_outcome := m\<rparr>"
      using 1(1)[OF True] unfolding s' .
    finally show ?thesis unfolding tryRun_unfold[OF r q] .
  qed
qed

lemma settle_tryRun:
  assumes "t \<in> set (lim_active s)"
  shows "lim_step s (Settle t r) =
     (tryRun (s\<lparr>lim_active := removeAll t (lim_active s), lim_running := lim_running s - 1\<rparr>))
       \<lparr>lim_outcome := (lim_outcome s)(t \<mapsto> r)\<rparr>"
proof -
  let ?base = "s\<lparr>lim_active := removeAll t (lim_active s), lim_running := lim_running s - 1\<rparr>"
  have "lim_step s (Settle t r) =
        tryRun (s\<lparr>lim_outcome := (lim_outcome s)(t \<mapsto> r),
                  lim_active := removeAll t (lim_active s),
                  lim_running := lim_running s - 1\<rparr>)"
    using assms by simp
  also have "s\<lparr>lim_outcome := (lim_outcome s)(t \<mapsto> r),
                  lim_active := removeAll t (lim_active s),
                  lim_running := lim_running s - 1\<rparr> = ?base\<lparr>lim_outcome := (lim_outcome s)(t \<mapsto> r)\<rparr>"
    by simp
  also have "tryRun \<dots> = (tryRun ?base)\<lparr>lim_outcome := (lim_outcome s)(t \<mapsto> r)\<rparr>"
    by (rule tryRun_outcome_update)
  finally show ?thesis .
qed

lemma settle_same_limiter:
  assumes "t \<in> set (lim_active s)"
  shows "lim_step s (Settle t r) = (lim_step s (Settle t r'))\<lparr>lim_outcome := (lim_outcome s)(t \<mapsto> r)\<rparr>"
  unfolding settle_tryRun[OF assms] by simp

lemma settle_unsettled:
  assumes "lim_inv s" "t \<in> set (lim_active s)"
  shows "lim_unsettled (lim_step s (Settle t r)) + 1 = lim_unsettled s"
proof -
  have d: "distinct (lim_active s)" using assms by (simp add: lim_inv_def lim_book_def)
  have len: "length (removeAll t (lim_active s)) = length (lim_active s) - 1"
    using assms(2) d by (simp add: distinct_remove1_removeAll[symmetric] length_remove1)
  have pos: "0 < length (lim_active s)" using assms(2) by (cases "lim_active s") auto
  have "lim_unsettled (lim_step s (Settle t r)) =
        lim_unsettled (s\<lparr>lim_outcome := (lim_outcome s)(t \<mapsto> r),
                     lim_active := removeAll t (lim_active s),
                     lim_running := lim_running s - 1\<rparr>)"
    using assms(2) by (simp add: tryRun_unsettled)
  also have "\<dots> + 1 = lim_unsettled s"
    using len pos by (simp add: lim_unsettled_def)
  finally show ?thesis .
qed

lemma drain_unsettled:
  assumes "lim_inv s" "settles_running s ds"
  shows "lim_unsettled (lim_run s ds) + length ds = lim_unsettled s"
  using assms
proof (induction ds arbitrary: s)
  case Nil
  then show ?case by (simp add: lim_run_def)
next
  case (Cons e ds)
  then obtain t r where e: "e = Settle t r" by (cases e) auto
  have t: "t \<in> set (lim_active s)" and rest: "settles_running (lim_step s (Settle t r)) ds"
    using Cons.prems(2) e by (simp_all del: lim_step.simps)
  have "lim_unsettled (lim_run (lim_step s (Settle t r)) ds) + length ds
        = lim_unsettled (lim_step s (Settle t r))"
    by (rule Cons.IH[OF lim_step_inv[OF Cons.prems(1)] rest])
  moreover have "lim_run s (e # ds) = lim_run (lim_step s (Settle t r)) ds"
    by (simp add: lim_run_def e)
  ultimately show ?case using settle_unsettled[OF Cons.prems(1) t, of r] by simp
qed

lemma lim_step_submitted_settle: "lim_submitted (lim_step s (Settle t r)) = lim_submitted s"
  by (simp add: tryRun_submitted)

lemma drain_submitted:
  "settles_running s ds \<Longrightarrow> lim_submitted (lim_run s ds) = lim_submitted s"
proof (induction ds arbitrary: s)
  case Nil
  then show ?case by (simp add: lim_run_def)
next
  case (Cons e ds)
  then obtain t r where e: "e = Settle t r" by (cases e) auto
  have "lim_submitted (lim_run (lim_step s (Settle t r)) ds) = lim_submitted (lim_step s (Settle t r))"
    using Cons e by (simp del: lim_step.simps)
  moreover have "lim_run s (e # ds) = lim_run (lim_step s (Settle t r)) ds"
    by (simp add: lim_run_def e)
  ultimately show ?case using lim_step_submitted_settle[of s t r] by simp
qed

lemma all_settled_dom:
  assumes "lim_inv s" "lim_unsettled s = 0"
  shows "dom (lim_outcome s) = {0..<lim_submitted s}"
proof -
  have "lim_active s = []" "lim_queue s = []" using assms(2) by (simp_all add: lim_unsettled_def)
  moreover have "lim_started s @ lim_queue s = [0..<lim_submitted s]"
    using assms(1) by (simp add: lim_inv_def lim_fifo_def)
  moreover have "dom (lim_outcome s) = set (lim_started s) - set (lim_active s)"
    using assms(1) by (simp add: lim_inv_def lim_book_def)
  ultimately show ?thesis by simp
qed

lemma outcome_kept_step:
  assumes "lim_inv s" "lim_outcome s t = Some r"
  shows "lim_outcome (lim_step s e) t = Some r"
proof (cases e)
  case Submit
  then show ?thesis using assms(2) by (simp add: tryRun_outcome)
next
  case (Settle u r')
  have "t \<in> dom (lim_outcome s)" using assms(2) by auto
  then have "t \<notin> set (lim_active s)" using assms(1) by (simp add: lim_inv_def lim_book_def)
  then show ?thesis using Settle assms(2) by (auto simp: tryRun_outcome)
qed

lemma outcome_kept:
  "lim_inv s \<Longrightarrow> lim_outcome s t = Some r \<Longrightarrow> lim_outcome (lim_run s es) t = Some r"
proof (induction es arbitrary: s)
  case Nil
  then show ?case by (simp add: lim_run_def)
next
  case (Cons e es)
  have "lim_outcome (lim_run (lim_step s e) es) t = Some r"
    by (rule Cons.IH[OF lim_step_inv[OF Cons.prems(1)] outcome_kept_step[OF Cons.prems]])
  then show ?case by (simp add: lim_run_def)
qed

text \<open>
  Claim C3.  For every limit of at least 1 and every sequence of submissions
  and settlements: the tasks running never exceed the limit (and the counter
  \<^verbatim>\<open>running\<close> is their number); tasks are started in submission order, the
  started ones followed by the queued ones being exactly the submission
  order; a task that rejects moves the limiter exactly as one that fulfils and
  changes nobody's outcome but its own caller's, and an outcome once
  delivered stays; while a task is unsettled some started task is running,
  each settlement of a running task leaves one unsettled task fewer, and
  after as many settlements as there were unsettled tasks every submitted
  task has its outcome.
\<close>

theorem limiter_guarantees:
  assumes "1 \<le> limit" and "s = lim_run (createConcurrencyLimiter limit) es"
  shows "int (length (lim_active s)) \<le> limit \<and>
     lim_running s = int (length (lim_active s)) \<and>
     lim_started s @ lim_queue s = [0..<lim_submitted s] \<and>
     (\<forall>t\<in>set (lim_active s). \<forall>e v.
        lim_step s (Settle t (RejectedWith e)) =
          (lim_step s (Settle t (Fulfilled v)))
            \<lparr>lim_outcome := (lim_outcome s)(t \<mapsto> RejectedWith e)\<rparr>) \<and>
     (\<forall>u r es'. lim_outcome s u = Some r \<longrightarrow> lim_outcome (lim_run s es') u = Some r) \<and>
     (0 < lim_unsettled s \<longrightarrow> lim_active s \<noteq> []) \<and>
     (\<forall>ds. settles_running s ds \<longrightarrow>
        lim_unsettled (lim_run s ds) + length ds = lim_unsettled s \<and>
        (length ds = lim_unsettled s \<longrightarrow>
           dom (lim_outcome (lim_run s ds)) = {0..<lim_submitted s}))"
proof -
  have inv: "lim_inv s" unfolding assms(2) using assms(1) by (intro lim_run_inv lim_init_inv) simp
  have lim: "lim_limit s = limit"
    unfolding assms(2) by (simp add: lim_run_limit createConcurrencyLimiter_def)
  have a: "int (length (lim_active s)) \<le> limit"
    using inv lim by (simp add: lim_inv_def lim_count_def)
  have b: "lim_running s = int (length (lim_active s))"
    using inv by (simp add: lim_inv_def lim_count_def)
  have c: "lim_started s @ lim_queue s = [0..<lim_submitted s]"
    using inv by (simp add: lim_inv_def lim_fifo_def)
  have d: "\<forall>t\<in>set (lim_active s). \<forall>e v.
        lim_step s (Settle t (RejectedWith e)) =
          (lim_step s (Settle t (Fulfilled v)))
            \<lparr>lim_outcome := (lim_outcome s)(t \<mapsto> RejectedWith e)\<rparr>"
    using settle_same_limiter[of _ s] by blast
  have e: "\<forall>u r es'. lim_outcome s u = Some r \<longrightarrow> lim_outcome (lim_run s es') u = Some r"
    using outcome_kept[OF inv] by blast
  have f: "0 < lim_unsettled s \<longrightarrow> lim_active s \<noteq> []"
    using lim_inv_progress[OF inv] lim assms(1) by simp
  have g: "\<forall>ds. settles_running s ds \<longrightarrow>
        lim_unsettled (lim_run s ds) + length ds = lim_unsettled s \<and>
        (length ds = lim_unsettled s \<longrightarrow>
           dom (lim_outcome (lim_run s ds)) = {0..<lim_submitted s})"
  proof (intro allI impI conjI)
    fix ds assume sr: "settles_running s ds"
    show u: "lim_unsettled (lim_run s ds) + length ds = lim_unsettled s"
      by (rule drain_unsettled[OF inv sr])
    assume "length ds = lim_unsettled s"
    then have z: "lim_unsettled (lim_run s ds) = 0" using u by simp
    have "dom (lim_outcome (lim_run s ds)) = {0..<lim_submitted (lim_run s ds)}"
      by (rule all_settled_dom[OF lim_run_inv[OF inv] z])
    then show "dom (lim_outcome (lim_run s ds)) = {0..<lim_submitted s}"
      unfolding drain_submitted[OF sr] .
  qed
  show ?thesis using a b c d e f g by blast
qed

lemma three_submitted:
  "lim_run (createConcurrencyLimiter 2) [Submit, Submit, Submit] = three_queued"
  by (simp add: lim_run_def createConcurrencyLimiter_def three_queued_def tryRun.simps lim_start_def)

text \<open>
  Claim C3 on a limiter of limit 2 with three tasks submitted: two run, one
  waits; the first rejects, the others fulfil, and all three callers get
  their own outcome.
\<close>

theorem limiter_guarantees_witness:
  "(1::int) \<le> 2 \<and>
   lim_started (three_queued :: (nat, nat) limiter) = [0, 1] \<and>
   lim_queue (three_queued :: (nat, nat) limiter) = [2] \<and>
   settles_running three_queued three_settle \<and>
   length three_settle = lim_unsettled (three_queued :: (nat, nat) limiter) \<and>
   dom (lim_outcome (lim_run three_queued three_settle)) = {0..<3} \<and>
   lim_outcome (lim_run three_queued three_settle) 0 = Some (RejectedWith 7) \<and>
   lim_outcome (lim_run three_queued three_settle) 2 = Some (Fulfilled 9) \<and>
   lim_started (lim_run three_queued three_settle) = [0, 1, 2]"
proof -
  have sr: "settles_running (three_queued :: (nat, nat) limiter) three_settle"
    by (simp add: three_queued_def three_settle_def tryRun.simps lim_start_def)
  have len: "length three_settle = lim_unsettled (three_queued :: (nat, nat) limiter)"
    by (simp add: three_queued_def three_settle_def lim_unsettled_def)
  have sub: "lim_submitted (three_queued :: (nat, nat) limiter) = 3"
    by (simp add: three_queued_def)
  have "dom (lim_outcome (lim_run three_queued three_settle)) =
        {0..<lim_submitted (three_queued :: (nat, nat) limiter)}"
    using limiter_guarantees[of 2 "three_queued :: (nat, nat) limiter" "[Submit, Submit, Submit]"]
      three_submitted sr len by simp
  moreover have "lim_outcome (lim_run three_queued three_settle) 0 = Some (RejectedWith 7)"
    "lim_outcome (lim_run three_queued three_settle) 2 = Some (Fulfilled 9)"
    "lim_started (lim_run three_queued three_settle) = [0, 1, 2]"
    by (simp_all add: lim_run_def three_queued_def three_settle_def tryRun.simps lim_start_def)
  ultimately show ?thesis using sr len sub by (simp add: three_queued_def)
qed

lemma svc_inv_init: "svc_inv (new_service sh)"
  by (simp add: svc_inv_def new_service_def)

lemma svc_inv_call:
  assumes "svc_inv s"
  shows "svc_inv (svc_step env s (SearchCall q src ca t))"
proof (cases "request_key env q src ca")
  case (Inl e)
  then show ?thesis using assms by (simp add: svc_inv_def Let_def)
next
  case (Inr k)
  show ?thesis
  proof (cases "inflightRequests s k")
    case (Some p)
    then show ?thesis using assms Inr by (simp add: svc_inv_def Let_def)
  next
    case None
    have fresh: "pending s (next_promise s) = None"
      using assms unfolding svc_inv_def by (metis less_irrefl option.exhaust)
    have nokey: "\<And>p rq. pending s p = Some rq \<Longrightarrow> req_key rq \<noteq> k"
      using assms None unfolding svc_inv_def by force
    have nop: "\<And>ka. inflightRequests s ka \<noteq> Some (next_promise s)"
      using assms fresh unfolding svc_inv_def by force
    show ?thesis
      using assms Inr None fresh nokey nop unfolding svc_inv_def
      by (auto simp: Let_def less_Suc_eq)
  qed
qed

lemma svc_inv_settle:
  assumes "svc_inv s"
  shows "svc_inv (svc_step env s (FetchSettled p outcome end_t now))"
proof (cases "pending s p")
  case None
  then show ?thesis using assms by simp
next
  case (Some rq)
  have k: "inflightRequests s (req_key rq) = Some p" using assms Some by (simp add: svc_inv_def)
  have other: "\<And>p' rq'. pending s p' = Some rq' \<Longrightarrow> p' \<noteq> p \<Longrightarrow> req_key rq' \<noteq> req_key rq"
    using assms k unfolding svc_inv_def by force
  have only: "\<And>k. inflightRequests s k = Some p \<Longrightarrow> k = req_key rq"
    using assms Some unfolding svc_inv_def by force
  show ?thesis
    using assms Some k other only unfolding svc_inv_def
    by (auto simp: exec_finish_def Let_def)
qed

lemma svc_step_inv: "svc_inv s \<Longrightarrow> svc_inv (svc_step env s e)"
  by (cases e) (simp_all only: svc_inv_call svc_inv_settle)

lemma svc_run_inv: "svc_inv s \<Longrightarrow> svc_inv (svc_run env s es)"
  unfolding svc_run_def by (induction es arbitrary: s) (simp_all add: svc_step_inv del: svc_step.simps)

lemma deliver_keeps:
  "m c = Some (searchVideos_result res) \<Longrightarrow> deliver p res ws m c = Some (searchVideos_result res)"
  by (induction ws arbitrary: m) auto

lemma deliver_waiting:
  "(c, p) \<in> set ws \<Longrightarrow> deliver p res ws m c = Some (searchVideos_result res)"
  by (induction ws arbitrary: m) (auto simp: deliver_keeps)

lemma deliver_others:
  "(c, p) \<notin> set ws \<Longrightarrow> deliver p res ws m c = m c"
  by (induction ws arbitrary: m) (auto split: if_splits)

lemma settle_effect:
  assumes "pending s p = Some rq"
  shows "svc_step env s (FetchSettled p outcome end_t now) =
     s\<lparr>sourceHealth := updateHealth (sourceHealth s) (req_source rq)
                         (case exec_body env rq outcome of Inr _ \<Rightarrow> True | Inl _ \<Rightarrow> False)
                         (end_t - req_start rq) now,
       inflightRequests := (inflightRequests s)(req_key rq := None),
       pending := (pending s)(p := None),
       returned := deliver p (exec_body env rq outcome) (waiting s) (returned s),
       waiting := filter (\<lambda>(c, q). q \<noteq> p) (waiting s)\<rparr>"
  using assms by (simp add: exec_finish_def Let_def)

lemma failing_outcome_fails:
  "failing_outcome outcome \<Longrightarrow> \<exists>e. exec_body env rq outcome = Inl e"
  by (auto simp: failing_outcome_def exec_body_def split: fetch_outcome.splits sum.splits json_data.splits)

text \<open>
  Claim C2.  In every state reached by calls and network answers: two
  pending requests never share a key; a key is in the in-flight map exactly
  while its request is pending; a call whose key is in flight starts no fetch
  and waits on the promise already stored; a call whose key is absent starts
  exactly one fetch under a fresh promise; and when a request settles its key
  leaves the map and every caller waiting on it gets the same result.
\<close>

theorem inflight_dedup:
  assumes "s = svc_run env (new_service sh) es"
  shows
   "(\<forall>p1 p2 r1 r2. pending s p1 = Some r1 \<and> pending s p2 = Some r2 \<and> req_key r1 = req_key r2
        \<longrightarrow> p1 = p2) \<and>
    (\<forall>k p. inflightRequests s k = Some p \<longleftrightarrow> (\<exists>rq. pending s p = Some rq \<and> req_key rq = k)) \<and>
    (\<forall>q src ca t k p. request_key env q src ca = Inr k \<and> inflightRequests s k = Some p \<longrightarrow>
        fetch_log (svc_step env s (SearchCall q src ca t)) = fetch_log s \<and>
        pending (svc_step env s (SearchCall q src ca t)) = pending s \<and>
        waiting (svc_step env s (SearchCall q src ca t)) = waiting s @ [(calls s, p)]) \<and>
    (\<forall>q src ca t k. request_key env q src ca = Inr k \<and> inflightRequests s k = None \<longrightarrow>
        fetch_log (svc_step env s (SearchCall q src ca t)) = fetch_log s @ [k] \<and>
        inflightRequests (svc_step env s (SearchCall q src ca t)) k = Some (next_promise s) \<and>
        waiting (svc_step env s (SearchCall q src ca t)) = waiting s @ [(calls s, next_promise s)]) \<and>
    (\<forall>p rq outcome end_t now. pending s p = Some rq \<longrightarrow>
        inflightRequests (svc_step env s (FetchSettled p outcome end_t now)) (req_key rq) = None \<and>
        pending (svc_step env s (FetchSettled p outcome end_t now)) p = None \<and>
        (\<forall>c. (c, p) \<in> set (waiting s) \<longrightarrow>
           returned (svc_step env s (FetchSettled p outcome end_t now)) c =
             Some (searchVideos_result (exec_body env rq outcome))))"
proof -
  have inv: "svc_inv s" unfolding assms by (rule svc_run_inv[OF svc_inv_init])
  have a: "\<forall>p1 p2 r1 r2. pending s p1 = Some r1 \<and> pending s p2 = Some r2 \<and> req_key r1 = req_key r2
        \<longrightarrow> p1 = p2"
    using inv unfolding svc_inv_def by (metis option.inject)
  have b: "\<forall>k p. inflightRequests s k = Some p \<longleftrightarrow> (\<exists>rq. pending s p = Some rq \<and> req_key rq = k)"
    using inv unfolding svc_inv_def by blast
  have c: "\<forall>q src ca t k p. request_key env q src ca = Inr k \<and> inflightRequests s k = Some p \<longrightarrow>
        fetch_log (svc_step env s (SearchCall q src ca t)) = fetch_log s \<and>
        pending (svc_step env s (SearchCall q src ca t)) = pending s \<and>
        waiting (svc_step env s (SearchCall q src ca t)) = waiting s @ [(calls s, p)]"
    by (simp add: Let_def)
  have d: "\<forall>q src ca t k. request_key env q src ca = Inr k \<and> inflightRequests s k = None \<longrightarrow>
        fetch_log (svc_step env s (SearchCall q src ca t)) = fetch_log s @ [k] \<and>
        inflightRequests (svc_step env s (SearchCall q src ca t)) k = Some (next_promise s) \<and>
        waiting (svc_step env s (SearchCall q src ca t)) = waiting s @ [(calls s, next_promise s)]"
    by (simp add: Let_def)
  have e: "\<forall>p rq outcome end_t now. pending s p = Some rq \<longrightarrow>
        inflightRequests (svc_step env s (FetchSettled p outcome end_t now)) (req_key rq) = None \<and>
        pending (svc_step env s (FetchSettled p outcome end_t now)) p = None \<and>
        (\<forall>c. (c, p) \<in> set (waiting s) \<longrightarrow>
           returned (svc_step env s (FetchSettled p outcome end_t now)) c =
             Some (searchVideos_result (exec_body env rq outcome)))"
    by (simp add: settle_effect deliver_waiting del: svc_step.simps)
  show ?thesis using a b c d e by blast
qed

lemma demo_request_key: "request_key demo_env ''q'' ''a'' None = Inr demo_key"
  by (simp add: request_key_def demo_env_def demo_key_def truthy_def)

lemma demo_calls_state:
  "inflightRequests (svc_run demo_env (new_service Map.empty) demo_calls) demo_key = Some 0"
  "fetch_log (svc_run demo_env (new_service Map.empty) demo_calls) = [demo_key]"
  "waiting (svc_run demo_env (new_service Map.empty) demo_calls) = [(0, 0), (1, 0)]"
  "pending (svc_run demo_env (new_service Map.empty) demo_calls) 0 =
     Some \<lparr>req_key = demo_key, req_source = ''a'', req_customApi = None, req_start = 0\<rparr>"
  by (simp_all add: svc_run_def demo_calls_def new_service_def demo_request_key Let_def)

text \<open>
  Two overlapping calls for the same query and source share one fetch, get
  the same answer, and the key is free again afterwards.
\<close>

theorem inflight_dedup_witness:
  "request_key demo_env ''q'' ''a'' None = Inr demo_key \<and>
   inflightRequests (svc_run demo_env (new_service Map.empty) demo_calls) demo_key = Some 0 \<and>
   fetch_log (svc_run demo_env (new_service Map.empty) demo_calls) = [demo_key] \<and>
   fetch_log (svc_step demo_env (svc_run demo_env (new_service Map.empty) demo_calls)
                (SearchCall ''q'' ''a'' None 2)) = [demo_key] \<and>
   (0, 0) \<in> set (waiting (svc_run demo_env (new_service Map.empty) demo_calls)) \<and>
   (1, 0) \<in> set (waiting (svc_run demo_env (new_service Map.empty) demo_calls)) \<and>
   returned (svc_step demo_env (svc_run demo_env (new_service Map.empty) demo_calls)
                (FetchSettled 0 (FetchRejected NetworkError) 5 100)) 0 =
   returned (svc_step demo_env (svc_run demo_env (new_service Map.empty) demo_calls)
                (FetchSettled 0 (FetchRejected NetworkError) 5 100)) 1 \<and>
   inflightRequests (svc_step demo_env (svc_run demo_env (new_service Map.empty) demo_calls)
                (FetchSettled 0 (FetchRejected NetworkError) 5 100)) demo_key = None"
proof -
  let ?s = "svc_run demo_env (new_service Map.empty) demo_calls"
  note th = inflight_dedup[of ?s demo_env Map.empty demo_calls, OF refl]
  have c: "fetch_log (svc_step demo_env ?s (SearchCall ''q'' ''a'' None 2)) = fetch_log ?s"
    using th demo_request_key demo_calls_state(1) by blast
  have e: "inflightRequests (svc_step demo_env ?s (FetchSettled 0 (FetchRejected NetworkError) 5 100))
             demo_key = None \<and>
           (\<forall>c. (c, 0) \<in> set (waiting ?s) \<longrightarrow>
              returned (svc_step demo_env ?s (FetchSettled 0 (FetchRejected NetworkError) 5 100)) c =
              Some (searchVideos_result (exec_body demo_env
                 \<lparr>req_key = demo_key, req_source = ''a'', req_customApi = None, req_start = 0\<rparr>
                 (FetchRejected NetworkError))))"
    using th demo_calls_state(4) by (metis request.select_convs(1))
  show ?thesis using c e demo_request_key demo_calls_state(1,2,3) by simp
qed

text \<open>
  Claim C4, as the code has it.  When the body of \<^verbatim>\<open>exec\<close> fails, the health
  store gets a failure with the elapsed time and \<^verbatim>\<open>exec\<close> throws the same
  error again; \<^verbatim>\<open>searchVideos\<close>, which awaits it inside its own \<^verbatim>\<open>try\<close>, turns
  the error into a response with code 400, the error as message and an empty
  list, and that response is what each waiting caller receives.  A rejected
  fetch (network error, timeout or abort), a status outside 200..299 and a
  body without a list are such failures.
\<close>

theorem failure_recorded_then_converted:
  "(pending s p = Some rq \<and> exec_body env rq outcome = Inl err \<longrightarrow>
      sourceHealth (svc_step env s (FetchSettled p outcome end_t now)) =
        updateHealth (sourceHealth s) (req_source rq) False (end_t - req_start rq) now \<and>
      fst (exec_finish env s rq outcome end_t now) = Inl err \<and>
      (\<forall>c. (c, p) \<in> set (waiting s) \<longrightarrow>
         returned (svc_step env s (FetchSettled p outcome end_t now)) c =
           Some (Inr \<lparr>resp_code = 400, resp_msg = Some err, resp_list = []\<rparr>))) \<and>
   (failing_outcome outcome \<longrightarrow> (\<exists>e. exec_body env rq outcome = Inl e))"
proof (intro conjI impI)
  assume a: "pending s p = Some rq \<and> exec_body env rq outcome = Inl err"
  show "sourceHealth (svc_step env s (FetchSettled p outcome end_t now)) =
        updateHealth (sourceHealth s) (req_source rq) False (end_t - req_start rq) now"
    using a by (simp add: settle_effect del: svc_step.simps)
  show "fst (exec_finish env s rq outcome end_t now) = Inl err"
    using a by (simp add: exec_finish_def Let_def)
  show "\<forall>c. (c, p) \<in> set (waiting s) \<longrightarrow>
         returned (svc_step env s (FetchSettled p outcome end_t now)) c =
           Some (Inr \<lparr>resp_code = 400, resp_msg = Some err, resp_list = []\<rparr>)"
    using a by (simp add: settle_effect deliver_waiting searchVideos_result_def del: svc_step.simps)
next
  assume "failing_outcome outcome"
  then show "\<exists>e. exec_body env rq outcome = Inl e" by (rule failing_outcome_fails)
qed

text \<open>
  A 503 answer to a shared request: one failure of 5 ms recorded, code 400
  returned.
\<close>

theorem failure_recorded_then_converted_witness:
  "pending (svc_run demo_env (new_service Map.empty) demo_calls) 0 =
     Some \<lparr>req_key = demo_key, req_source = ''a'', req_customApi = None, req_start = 0\<rparr> \<and>
   failing_outcome (HttpResponse 503 (Inr NoList)) \<and>
   exec_body demo_env \<lparr>req_key = demo_key, req_source = ''a'', req_customApi = None, req_start = 0\<rparr>
     (HttpResponse 503 (Inr NoList)) = Inl (RequestFailed 503) \<and>
   sourceHealth (svc_step demo_env (svc_run demo_env (new_service Map.empty) demo_calls)
      (FetchSettled 0 (HttpResponse 503 (Inr NoList)) 5 100)) ''a'' =
     Some \<lparr>avgLatencyMs = 5, successCount = 0, failureCount = 1,
           lastLatencyMs = 5, lastUpdatedAt = 100\<rparr> \<and>
   returned (svc_step demo_env (svc_run demo_env (new_service Map.empty) demo_calls)
      (FetchSettled 0 (HttpResponse 503 (Inr NoList)) 5 100)) 1 =
     Some (Inr \<lparr>resp_code = 400, resp_msg = Some (RequestFailed 503), resp_list = []\<rparr>)"
proof -
  let ?s = "svc_run demo_env (new_service Map.empty) demo_calls"
  let ?rq = "\<lparr>req_key = demo_key, req_source = ''a'', req_customApi = None, req_start = 0\<rparr>"
  have b: "exec_body demo_env ?rq (HttpResponse 503 (Inr NoList)) = Inl (RequestFailed 503)"
    by (simp add: exec_body_def response_ok_def)
  have f: "failing_outcome (HttpResponse 503 (Inr NoList))"
    by (simp add: failing_outcome_def response_ok_def)
  have h: "sourceHealth ?s = Map.empty"
    by (simp add: svc_run_def demo_calls_def new_service_def demo_request_key Let_def)
  note th = failure_recorded_then_converted[of ?s 0 ?rq demo_env "HttpResponse 503 (Inr NoList)"
      "RequestFailed 503" 5 100]
  have 1: "sourceHealth (svc_step demo_env ?s (FetchSettled 0 (HttpResponse 503 (Inr NoList)) 5 100)) =
        updateHealth (sourceHealth ?s) ''a'' False (5 - 0) 100"
    using th demo_calls_state(4) b by simp
  have 2: "returned (svc_step demo_env ?s (FetchSettled 0 (HttpResponse 503 (Inr NoList)) 5 100)) 1 =
     Some (Inr \<lparr>resp_code = 400, resp_msg = Some (RequestFailed 503), resp_list = []\<rparr>)"
    using th demo_calls_state(3,4) b by simp
  show ?thesis unfolding 1 2 h using b f demo_calls_state(4) by (simp add: updateHealth_def)
qed

text \<open>
  Claim C4 as stated fails at its last step: after a network error the
  promise of \<^verbatim>\<open>searchVideos\<close> is fulfilled with a code-400 response; the error
  is not raised to the caller.
\<close>

theorem searchVideos_reraise_counterexample:
  "returned (svc_run demo_env (new_service Map.empty) demo_failed) 0 =
     Some (Inr \<lparr>resp_code = 400, resp_msg = Some NetworkError, resp_list = []\<rparr>) \<and>
   returned (svc_run demo_env (new_service Map.empty) demo_failed) 0 \<noteq> Some (Inl NetworkError)"
  by (simp add: svc_run_def demo_failed_def demo_calls_def new_service_def demo_request_key Let_def
      exec_finish_def exec_body_def searchVideos_result_def)

subsection \<open>Frame properties of the session's operations\<close>

lemma settle_task_fields [simp]:
  "queue (settle_task i r s) = queue s"
  "running (settle_task i r s) = running s"
  "dynamicLimit (settle_task i r s) = dynamicLimit s"
  "orderedAPIs (settle_task i r s) = orderedAPIs s"
  "topK (settle_task i r s) = topK s"
  "aborted (settle_task i r s) = aborted s"
  "signal (settle_task i r s) = signal s"
  "seen (settle_task i r s) = seen s"
  "reachedTopK (settle_task i r s) = reachedTopK s"
  "perSourceControllers (settle_task i r s) = perSourceControllers s"
  "ctrl_aborted (settle_task i r s) = ctrl_aborted s"
  "signal_listeners (settle_task i r s) = signal_listeners s"
  "delivered (settle_task i r s) = delivered s"
  "searched (settle_task i r s) = searched s"
  "status (settle_task i r s) = (status s)[i := Returned r]"
  by (simp_all add: settle_task_def Let_def)

lemma abortRest_fields [simp]:
  "queue (abortRest s) = queue s"
  "running (abortRest s) = running s"
  "dynamicLimit (abortRest s) = dynamicLimit s"
  "orderedAPIs (abortRest s) = orderedAPIs s"
  "topK (abortRest s) = topK s"
  "aborted (abortRest s) = aborted s"
  "signal (abortRest s) = signal s"
  "seen (abortRest s) = seen s"
  "reachedTopK (abortRest s) = reachedTopK s"
  "perSourceControllers (abortRest s) = perSourceControllers s"
  "signal_listeners (abortRest s) = signal_listeners s"
  "delivered (abortRest s) = delivered s"
  "searched (abortRest s) = searched s"
  "status (abortRest s) = status s"
  "result (abortRest s) = result s"
  "ctrl_aborted (abortRest s) = ctrl_aborted s \<union> snd ` set (perSourceControllers s)"
  by (simp_all add: abortRest_def)

lemma fire_signal_fields [simp]:
  "queue (fire_signal s) = queue s"
  "running (fire_signal s) = running s"
  "dynamicLimit (fire_signal s) = dynamicLimit s"
  "orderedAPIs (fire_signal s) = orderedAPIs s"
  "topK (fire_signal s) = topK s"
  "seen (fire_signal s) = seen s"
  "reachedTopK (fire_signal s) = reachedTopK s"
  "perSourceControllers (fire_signal s) = perSourceControllers s"
  "signal_listeners (fire_signal s) = signal_listeners s"
  "delivered (fire_signal s) = delivered s"
  "searched (fire_signal s) = searched s"
  "status (fire_signal s) = status s"
  by (simp_all add: fire_signal_def Let_def)

lemma fire_signal_flags:
  "aborted (fire_signal s) = (aborted s \<or> signal s = Some False)"
  "signal (fire_signal s) = (if signal s = Some False then Some True else signal s)"
  "result (fire_signal s) =
     (if signal s = Some False \<and> result s = Pending then Rejected AbortError else result s)"
  "ctrl_aborted (fire_signal s) =
     (if signal s = Some False
      then ctrl_aborted s \<union> snd ` set (perSourceControllers s) \<union> set (signal_listeners s)
      else ctrl_aborted s)"
  by (simp_all add: fire_signal_def Let_def)

lemma start_task_fields [simp]:
  "queue (start_task ctx i s) = queue s"
  "running (start_task ctx i s) = running s"
  "dynamicLimit (start_task ctx i s) = dynamicLimit s"
  "orderedAPIs (start_task ctx i s) = orderedAPIs s"
  "topK (start_task ctx i s) = topK s"
  "aborted (start_task ctx i s) = aborted s"
  "signal (start_task ctx i s) = signal s"
  "seen (start_task ctx i s) = seen s"
  "reachedTopK (start_task ctx i s) = reachedTopK s"
  "delivered (start_task ctx i s) = delivered s"
  "length (status (start_task ctx i s)) = length (status s)"
  by (simp_all add: start_task_def Let_def split: option.splits bool.splits)

lemma sess_tryRun_unfold:
  assumes "running s < dynamicLimit s" "queue s = t # q"
  shows "sess_tryRun ctx s = sess_tryRun ctx (start_task ctx t (s\<lparr>queue := q, running := running s + 1\<rparr>))"
  using assms by (subst sess_tryRun.simps) simp

lemma sess_tryRun_stop:
  assumes "\<not> (running s < dynamicLimit s \<and> queue s \<noteq> [])"
  shows "sess_tryRun ctx s = s"
  using assms sess_tryRun.simps[of ctx s] by auto

text \<open>A property that holds before \<^verbatim>\<open>tryRun()\<close> and survives each start of a
  queued task holds after it.\<close>

lemma sess_tryRun_rule:
  assumes "P s"
    and "\<And>s t q. P s \<Longrightarrow> running s < dynamicLimit s \<Longrightarrow> queue s = t # q \<Longrightarrow>
           P (start_task ctx t (s\<lparr>queue := q, running := running s + 1\<rparr>))"
  shows "P (sess_tryRun ctx s)"
  using assms
proof (induction ctx s rule: sess_tryRun.induct)
  case (1 ctx s)
  show ?case
  proof (cases "running s < dynamicLimit s \<and> queue s \<noteq> []")
    case False
    show ?thesis unfolding sess_tryRun_stop[OF False] by (rule 1(2))
  next
    case True
    then obtain t q where q: "queue s = t # q" by (cases "queue s") auto
    have r: "running s < dynamicLimit s" using True by simp
    let ?s' = "start_task ctx t (s\<lparr>queue := q, running := running s + 1\<rparr>)"
    have s': "start_task ctx (hd (queue s)) (s\<lparr>queue := tl (queue s), running := running s + 1\<rparr>) = ?s'"
      by (simp add: q)
    have "P ?s'" by (rule 1(3)[OF 1(2) r q])
    then have "P (sess_tryRun ctx ?s')" using 1(1)[OF True] 1(3) unfolding s' by blast
    then show ?thesis unfolding sess_tryRun_unfold[OF r q] .
  qed
qed

lemma sess_tryRun_fields [simp]:
  "dynamicLimit (sess_tryRun ctx s) = dynamicLimit s"
  "orderedAPIs (sess_tryRun ctx s) = orderedAPIs s"
  "topK (sess_tryRun ctx s) = topK s"
  "aborted (sess_tryRun ctx s) = aborted s"
  "signal (sess_tryRun ctx s) = signal s"
  "seen (sess_tryRun ctx s) = seen s"
  "reachedTopK (sess_tryRun ctx s) = reachedTopK s"
  "delivered (sess_tryRun ctx s) = delivered s"
  "length (status (sess_tryRun ctx s)) = length (status s)"
proof -
  show "dynamicLimit (sess_tryRun ctx s) = dynamicLimit s"
    by (rule sess_tryRun_rule[where P="\<lambda>x. dynamicLimit x = dynamicLimit s"]) simp_all
  show "orderedAPIs (sess_tryRun ctx s) = orderedAPIs s"
    by (rule sess_tryRun_rule[where P="\<lambda>x. orderedAPIs x = orderedAPIs s"]) simp_all
  show "topK (sess_tryRun ctx s) = topK s"
    by (rule sess_tryRun_rule[where P="\<lambda>x. topK x = topK s"]) simp_all
  show "aborted (sess_tryRun ctx s) = aborted s"
    by (rule sess_tryRun_rule[where P="\<lambda>x. aborted x = aborted s"]) simp_all
  show "signal (sess_tryRun ctx s) = signal s"
    by (rule sess_tryRun_rule[where P="\<lambda>x. signal x = signal s"]) simp_all
  show "seen (sess_tryRun ctx s) = seen s"
    by (rule sess_tryRun_rule[where P="\<lambda>x. seen x = seen s"]) simp_all
  show "reachedTopK (sess_tryRun ctx s) = reachedTopK s"
    by (rule sess_tryRun_rule[where P="\<lambda>x. reachedTopK x = reachedTopK s"]) simp_all
  show "delivered (sess_tryRun ctx s) = delivered s"
    by (rule sess_tryRun_rule[where P="\<lambda>x. delivered x = delivered s"]) simp_all
  show "length (status (sess_tryRun ctx s)) = length (status s)"
    by (rule sess_tryRun_rule[where P="\<lambda>x. length (status x) = length (status s)"]) simp_all
qed

lemma resume_task_aborted:
  "aborted s \<Longrightarrow> resume_task ctx i outcome cb s =
     settle_task i None
       (s\<lparr>perSourceControllers := ctrl_delete (perSourceControllers s) (orderedAPIs s ! i)\<rparr>)"
  by (simp add: resume_task_def Let_def)

lemma resume_task_keeps:
  "length (status (resume_task ctx i outcome cb s)) = length (status s)"
  "orderedAPIs (resume_task ctx i outcome cb s) = orderedAPIs s"
  "aborted s \<Longrightarrow> aborted (resume_task ctx i outcome cb s)"
  "signal s = Some True \<Longrightarrow> signal (resume_task ctx i outcome cb s) = Some True"
  by (simp_all add: resume_task_def Let_def fire_signal_flags split: prod.splits callback.splits)

lemma sess_step_length: "length (status (sess_step ctx s e)) = length (status s)"
  by (cases e) (simp_all add: resume_task_keeps split: task_status.splits)

lemma sess_step_aborted: "aborted s \<Longrightarrow> aborted (sess_step ctx s e)"
  by (cases e) (simp_all add: resume_task_keeps fire_signal_flags split: task_status.splits)

lemma sess_step_fired: "signal s = Some True \<Longrightarrow> signal (sess_step ctx s e) = Some True"
  by (cases e) (simp_all add: resume_task_keeps fire_signal_flags split: task_status.splits)

lemma sess_step_delivered_aborted:
  assumes "aborted s \<or> status s = []"
  shows "delivered (sess_step ctx s e) = delivered s"
  using assms by (cases e) (auto simp: resume_task_aborted split: task_status.splits)

lemma sess_run_append: "sess_run ctx s (es @ es') = sess_run ctx (sess_run ctx s es) es'"
  by (simp add: sess_run_def)

lemma sess_run_Cons: "sess_run ctx s (e # es) = sess_run ctx (sess_step ctx s e) es"
  by (simp add: sess_run_def)

lemma sess_run_Nil: "sess_run ctx s [] = s"
  by (simp add: sess_run_def)

lemma sess_run_delivered_aborted:
  "aborted s \<or> status s = [] \<Longrightarrow> delivered (sess_run ctx s es) = delivered s"
proof (induction es arbitrary: s)
  case Nil
  then show ?case by (simp add: sess_run_Nil)
next
  case (Cons e es)
  have "aborted (sess_step ctx s e) \<or> status (sess_step ctx s e) = []"
    using Cons.prems sess_step_aborted[of s ctx e] sess_step_length[of ctx s e] by auto
  then have "delivered (sess_run ctx (sess_step ctx s e) es) = delivered (sess_step ctx s e)"
    by (rule Cons.IH)
  then show ?case
    unfolding sess_run_Cons using sess_step_delivered_aborted[OF Cons.prems] by simp
qed

lemma sig_ok_step: "sig_ok s \<Longrightarrow> sig_ok (sess_step ctx s e)"
proof -
  assume a: "sig_ok s"
  show ?thesis
  proof (cases "signal s = Some True")
    case True
    then have "aborted s \<or> status s = []" using a by (simp add: sig_ok_def)
    then have "aborted (sess_step ctx s e) \<or> status (sess_step ctx s e) = []"
      using sess_step_aborted[of s ctx e] sess_step_length[of ctx s e] by auto
    then show ?thesis by (simp add: sig_ok_def)
  next
    case False
    show ?thesis
    proof (cases e)
      case (Fetched i outcome cb)
      have "signal (resume_task ctx i outcome cb s) = Some True \<Longrightarrow> aborted (resume_task ctx i outcome cb s)"
        using False
        by (auto simp: resume_task_def Let_def fire_signal_flags split: prod.splits callback.splits if_splits)
      then show ?thesis using Fetched False by (auto simp: sig_ok_def)
    next
      case (Release i)
      then show ?thesis using False by (auto simp: sig_ok_def split: task_status.splits)
    next
      case Abort
      then show ?thesis using False by (auto simp: sig_ok_def fire_signal_flags)
    qed
  qed
qed

lemma sig_ok_run: "sig_ok s \<Longrightarrow> sig_ok (sess_run ctx s es)"
  by (induction es arbitrary: s) (simp_all add: sess_run_Nil sess_run_Cons sig_ok_step)

lemma submit_task_fields [simp]:
  "signal (submit_task ctx s i) = signal s"
  "aborted (submit_task ctx s i) = aborted s"
  "delivered (submit_task ctx s i) = delivered s"
  "orderedAPIs (submit_task ctx s i) = orderedAPIs s"
  "dynamicLimit (submit_task ctx s i) = dynamicLimit s"
  "topK (submit_task ctx s i) = topK s"
  "length (status (submit_task ctx s i)) = Suc (length (status s))"
  by (simp_all add: submit_task_def)

lemma dispatch_fields:
  "signal (foldl (submit_task ctx) s is) = signal s"
  "aborted (foldl (submit_task ctx) s is) = aborted s"
  "delivered (foldl (submit_task ctx) s is) = delivered s"
  "orderedAPIs (foldl (submit_task ctx) s is) = orderedAPIs s"
  "dynamicLimit (foldl (submit_task ctx) s is) = dynamicLimit s"
  "topK (foldl (submit_task ctx) s is) = topK s"
  "length (status (foldl (submit_task ctx) s is)) = length (status s) + length is"
  by (induction "is" arbitrary: s) simp_all

lemma sig_ok_aggregatedSearch: "sig_ok (aggregatedSearch ctx sel sg)"
  by (auto simp: aggregatedSearch_def sig_ok_def no_session_def Let_def dispatch_fields)

lemma no_session_step:
  "sess_step ctx (no_session (Some True) r) e = no_session (Some True) r"
  by (cases e) (simp_all add: no_session_def fire_signal_def)

lemma no_session_run:
  "sess_run ctx (no_session (Some True) r) es = no_session (Some True) r"
  by (induction es) (simp_all add: sess_run_Nil sess_run_Cons no_session_step)

text \<open>
  Claim C10.  In every execution, from the moment the external signal has
  fired the list of \<^verbatim>\<open>onNewResults\<close> calls no longer grows, whatever comes
  back afterwards.
\<close>

theorem no_delivery_after_abort:
  assumes "signal (sess_run ctx (aggregatedSearch ctx sel sg) es) = Some True"
  shows "delivered (sess_run ctx (aggregatedSearch ctx sel sg) (es @ es')) =
         delivered (sess_run ctx (aggregatedSearch ctx sel sg) es)"
proof -
  let ?s = "sess_run ctx (aggregatedSearch ctx sel sg) es"
  have "sig_ok ?s" by (rule sig_ok_run[OF sig_ok_aggregatedSearch])
  then have "aborted ?s \<or> status ?s = []" using assms by (simp add: sig_ok_def)
  then show ?thesis unfolding sess_run_append by (rule sess_run_delivered_aborted)
qed

text \<open>
  Claim C8, as the code has it.  A call with an already aborted signal and
  at least one selected source is rejected with \<open>AbortError\<close> at once, calls
  no single-source search then or later, and nothing that happens afterwards
  changes the session; with no source selected the empty-selection return
  comes first and the call resolves, again without any search.
\<close>

theorem pre_aborted_call:
  "(sel \<noteq> [] \<longrightarrow>
      result (aggregatedSearch ctx sel (Some True)) = Rejected AbortError \<and>
      searched (aggregatedSearch ctx sel (Some True)) = [] \<and>
      sess_run ctx (aggregatedSearch ctx sel (Some True)) es = aggregatedSearch ctx sel (Some True)) \<and>
   result (aggregatedSearch ctx [] (Some True)) = Resolved \<and>
   searched (aggregatedSearch ctx [] (Some True)) = [] \<and>
   sess_run ctx (aggregatedSearch ctx [] (Some True)) es = aggregatedSearch ctx [] (Some True)"
  by (simp add: aggregatedSearch_def no_session_run) (simp add: no_session_def)

subsection \<open>The promise returned by a session\<close>

lemma res_ok_other_fields [simp]:
  "res_ok (s\<lparr>perSourceControllers := a\<rparr>) = res_ok s"
  "res_ok (s\<lparr>ctrl_aborted := b\<rparr>) = res_ok s"
  "res_ok (s\<lparr>signal_listeners := c\<rparr>) = res_ok s"
  "res_ok (s\<lparr>searched := d\<rparr>) = res_ok s"
  "res_ok (s\<lparr>queue := e\<rparr>) = res_ok s"
  "res_ok (s\<lparr>running := f\<rparr>) = res_ok s"
  "res_ok (s\<lparr>seen := g\<rparr>) = res_ok s"
  "res_ok (s\<lparr>reachedTopK := h\<rparr>) = res_ok s"
  "res_ok (s\<lparr>delivered := k\<rparr>) = res_ok s"
  by (simp_all add: res_ok_def all_fulfilled_def all_settled_def)

lemma res_ok_abortRest [simp]: "res_ok (abortRest s) = res_ok s"
  by (simp add: abortRest_def)

lemma status_class:
  "is_fulfilled st \<Longrightarrow> is_settled st"
  "is_fulfilled st \<Longrightarrow> \<not> is_rejected st"
  "is_settled st \<Longrightarrow> \<not> is_rejected st \<Longrightarrow> is_fulfilled st"
  "is_rejected st \<Longrightarrow> is_settled st"
  by (cases st; auto simp: is_fulfilled_def is_settled_def is_rejected_def split: option.splits)+

lemma all_fulfilled_nth:
  "all_fulfilled s \<longleftrightarrow> length (status s) = length (orderedAPIs s) \<and>
     (\<forall>j<length (status s). is_fulfilled (status s ! j))"
  by (simp add: all_fulfilled_def list_all_length)

lemma all_settled_nth:
  "all_settled s \<longleftrightarrow> length (status s) = length (orderedAPIs s) \<and>
     (\<forall>j<length (status s). is_settled (status s ! j))"
  by (simp add: all_settled_def list_all_length)

lemma res_ok_status_same:
  assumes "res_ok s" "i < length (status s)"
    and "is_fulfilled st = is_fulfilled (status s ! i)"
    and "is_settled st = is_settled (status s ! i)"
    and "is_rejected st = is_rejected (status s ! i)"
  shows "res_ok (s\<lparr>status := (status s)[i := st]\<rparr>)"
proof -
  let ?s' = "s\<lparr>status := (status s)[i := st]\<rparr>"
  have nth: "\<And>j. j < length (status s) \<Longrightarrow>
      is_fulfilled ((status s)[i := st] ! j) = is_fulfilled (status s ! j) \<and>
      is_settled ((status s)[i := st] ! j) = is_settled (status s ! j) \<and>
      is_rejected ((status s)[i := st] ! j) = is_rejected (status s ! j)"
    using assms(2-5) by (simp add: nth_list_update)
  have f: "all_fulfilled ?s' = all_fulfilled s" using nth by (auto simp: all_fulfilled_nth)
  have t: "all_settled ?s' = all_settled s" using nth by (auto simp: all_settled_nth)
  have r: "(\<exists>j<length (status ?s'). is_rejected (status ?s' ! j)) =
           (\<exists>j<length (status s). is_rejected (status s ! j))"
    using nth by auto
  have n: "(\<forall>j<length (status ?s'). \<not> is_rejected (status ?s' ! j)) =
           (\<forall>j<length (status s). \<not> is_rejected (status s ! j))"
    using nth by auto
  show ?thesis using assms(1) unfolding res_ok_def f t r n by simp
qed

lemma settle_task_result:
  "result (settle_task i r s) =
     (if result s = Pending
      then (case r of Some e \<Rightarrow> Rejected e
            | None \<Rightarrow> if all_fulfilled (s\<lparr>status := (status s)[i := Returned r]\<rparr>)
                      then Resolved else Pending)
      else result s)"
  by (simp add: settle_task_def Let_def)

lemma settle_task_res_ok:
  assumes "res_ok s" "i < length (status s)" "\<not> is_settled (status s ! i)"
  shows "res_ok (settle_task i r s)"
proof -
  let ?st = "(status s)[i := Returned r]"
  let ?s1 = "s\<lparr>status := ?st\<rparr>"
  let ?s' = "settle_task i r s"
  have st': "status ?s' = ?st" by simp
  have len: "length ?st = length (status s)" by simp
  have other: "\<And>j. j < length (status s) \<Longrightarrow> j \<noteq> i \<Longrightarrow> ?st ! j = status s ! j" by simp
  have at: "?st ! i = Returned r" using assms(2) by simp
  have not_ful: "\<not> all_fulfilled s"
    using assms(2,3) status_class(1) by (auto simp: all_fulfilled_nth)
  have af: "all_fulfilled ?s' = all_fulfilled ?s1" by (simp add: all_fulfilled_def)
  have as: "all_settled ?s' = all_settled ?s1" by (simp add: all_settled_def)
  show ?thesis
  proof (cases "result s")
    case Resolved
    then show ?thesis using assms(1) not_ful by (simp add: res_ok_def)
  next
    case (Rejected e)
    then have res: "result ?s' = Rejected e" by (simp add: settle_task_result)
    have "(e = AbortError \<and> signal s = Some True) \<or>
          (\<exists>j<length (status s). is_rejected (status s ! j))"
      using assms(1) Rejected by (simp add: res_ok_def)
    then have "(e = AbortError \<and> signal ?s' = Some True) \<or>
          (\<exists>j<length ?st. is_rejected (?st ! j))"
    proof
      assume "e = AbortError \<and> signal s = Some True"
      then show ?thesis by simp
    next
      assume "\<exists>j<length (status s). is_rejected (status s ! j)"
      then obtain j where j: "j < length (status s)" "is_rejected (status s ! j)" by blast
      then have "j \<noteq> i" using assms(3) status_class(4) by blast
      then have "is_rejected (?st ! j)" using j other by simp
      then show ?thesis using j(1) len by auto
    qed
    then show ?thesis unfolding res_ok_def res st' by simp
  next
    case Pending
    have sig: "signal s \<noteq> Some True" and norej: "\<forall>j<length (status s). \<not> is_rejected (status s ! j)"
      using assms(1) Pending by (simp_all add: res_ok_def)
    show ?thesis
    proof (cases r)
      case (Some e)
      have res: "result ?s' = Rejected e" using Pending Some by (simp add: settle_task_result)
      have "is_rejected (?st ! i)" using at Some by (simp add: is_rejected_def)
      then have "\<exists>j<length ?st. is_rejected (?st ! j)" using assms(2) len by auto
      then show ?thesis unfolding res_ok_def res st' by simp
    next
      case None
      have norej': "\<forall>j<length ?st. \<not> is_rejected (?st ! j)"
      proof (intro allI impI)
        fix j assume "j < length ?st"
        then show "\<not> is_rejected (?st ! j)"
          using norej at None other[of j] by (cases "j = i") (simp_all add: is_rejected_def)
      qed
      show ?thesis
      proof (cases "all_fulfilled ?s1")
        case True
        then have res: "result ?s' = Resolved" using Pending None by (simp add: settle_task_result)
        show ?thesis unfolding res_ok_def res using True af by simp
      next
        case False
        then have res: "result ?s' = Pending" using Pending None by (simp add: settle_task_result)
        have "\<not> all_settled ?s1"
        proof
          assume "all_settled ?s1"
          then have "all_fulfilled ?s1"
            using norej' status_class(3) by (auto simp: all_settled_nth all_fulfilled_nth)
          then show False using False by simp
        qed
        then show ?thesis unfolding res_ok_def res st' using sig norej' as by simp
      qed
    qed
  qed
qed

lemma fire_signal_res_ok: "res_ok s \<Longrightarrow> res_ok (fire_signal s)"
  unfolding res_ok_def
  by (cases "signal s = Some False")
     (auto simp: fire_signal_flags all_fulfilled_def all_settled_def)

lemma queue_ok_other_fields [simp]:
  "queue_ok (s\<lparr>perSourceControllers := a\<rparr>) = queue_ok s"
  "queue_ok (s\<lparr>ctrl_aborted := b\<rparr>) = queue_ok s"
  "queue_ok (s\<lparr>signal_listeners := c\<rparr>) = queue_ok s"
  "queue_ok (s\<lparr>searched := d\<rparr>) = queue_ok s"
  "queue_ok (s\<lparr>running := f\<rparr>) = queue_ok s"
  "queue_ok (s\<lparr>seen := g\<rparr>) = queue_ok s"
  "queue_ok (s\<lparr>reachedTopK := h\<rparr>) = queue_ok s"
  "queue_ok (s\<lparr>delivered := k\<rparr>) = queue_ok s"
  "queue_ok (s\<lparr>result := r\<rparr>) = queue_ok s"
  by (simp_all add: queue_ok_def)

lemma queue_ok_fire [simp]: "queue_ok (fire_signal s) = queue_ok s"
  by (simp add: queue_ok_def)

lemma queue_ok_abortRest [simp]: "queue_ok (abortRest s) = queue_ok s"
  by (simp add: queue_ok_def)

lemma queue_ok_status:
  assumes "queue_ok s" "i \<notin> set (queue s)"
  shows "queue_ok (s\<lparr>status := (status s)[i := st]\<rparr>)"
proof -
  have "\<And>j. j \<in> set (queue s) \<Longrightarrow> (status s)[i := st] ! j = status s ! j"
    using assms(2) by (metis nth_list_update_neq)
  then show ?thesis using assms(1) by (simp add: queue_ok_def)
qed

lemma queue_ok_settle:
  assumes "queue_ok s" "i \<notin> set (queue s)"
  shows "queue_ok (settle_task i r s)"
proof -
  have "\<And>j. j \<in> set (queue s) \<Longrightarrow> (status s)[i := Returned r] ! j = status s ! j"
    using assms(2) by (metis nth_list_update_neq)
  then show ?thesis using assms(1) by (simp add: queue_ok_def)
qed

lemma same_core_inv:
  assumes "status s' = status s" "result s' = result s" "queue s' = queue s"
    "signal s' = signal s" "orderedAPIs s' = orderedAPIs s"
  shows "res_ok s' = res_ok s" "queue_ok s' = queue_ok s"
  using assms by (simp_all add: res_ok_def queue_ok_def all_fulfilled_def all_settled_def)

lemma start_task_cases:
  "\<exists>s'. status s' = status s \<and> result s' = result s \<and> queue s' = queue s \<and>
        signal s' = signal s \<and> orderedAPIs s' = orderedAPIs s \<and>
        (start_task ctx i s = settle_task i None s' \<or>
         start_task ctx i s = s'\<lparr>status := (status s')[i := Fetching]\<rparr>)"
proof (cases "aborted s")
  case True
  then have "start_task ctx i s = settle_task i None s" by (simp add: start_task_def)
  then show ?thesis by blast
next
  case False
  let ?a = "orderedAPIs s ! i"
  let ?s1 = "s\<lparr>perSourceControllers := ctrl_set (perSourceControllers s) ?a i\<rparr>"
  let ?s2 = "case signal ?s1 of None \<Rightarrow> ?s1
             | Some True \<Rightarrow> ?s1\<lparr>ctrl_aborted := insert i (ctrl_aborted ?s1)\<rparr>
             | Some False \<Rightarrow> ?s1\<lparr>signal_listeners := signal_listeners ?s1 @ [i]\<rparr>"
  have core2: "status ?s2 = status s \<and> result ?s2 = result s \<and> queue ?s2 = queue s \<and>
        signal ?s2 = signal s \<and> orderedAPIs ?s2 = orderedAPIs s"
    by (simp split: option.splits bool.splits)
  show ?thesis
  proof (cases "calls_search ctx ?a")
    case True
    let ?s' = "?s2\<lparr>searched := searched ?s2 @ [i]\<rparr>"
    have "start_task ctx i s = ?s'\<lparr>status := (status ?s')[i := Fetching]\<rparr>"
      using False True by (simp add: start_task_def Let_def)
    moreover have "status ?s' = status s \<and> result ?s' = result s \<and> queue ?s' = queue s \<and>
        signal ?s' = signal s \<and> orderedAPIs ?s' = orderedAPIs s"
      using core2 by simp
    ultimately show ?thesis by blast
  next
    case no: False
    let ?s' = "?s2\<lparr>perSourceControllers := ctrl_delete (perSourceControllers ?s2) ?a\<rparr>"
    have "start_task ctx i s = settle_task i None ?s'"
      using False no by (simp add: start_task_def Let_def)
    moreover have "status ?s' = status s \<and> result ?s' = result s \<and> queue ?s' = queue s \<and>
        signal ?s' = signal s \<and> orderedAPIs ?s' = orderedAPIs s"
      using core2 by simp
    ultimately show ?thesis by blast
  qed
qed

lemma start_task_inv:
  assumes "res_ok s" "queue_ok s" "i < length (status s)" "status s ! i = Queued" "i \<notin> set (queue s)"
  shows "res_ok (start_task ctx i s) \<and> queue_ok (start_task ctx i s)"
proof -
  obtain s' where core: "status s' = status s" "result s' = result s" "queue s' = queue s"
        "signal s' = signal s" "orderedAPIs s' = orderedAPIs s"
    and st: "start_task ctx i s = settle_task i None s' \<or>
         start_task ctx i s = s'\<lparr>status := (status s')[i := Fetching]\<rparr>"
    using start_task_cases[of s ctx i] by blast
  have r': "res_ok s'" and q': "queue_ok s'"
    using assms(1,2) same_core_inv[OF core] by simp_all
  have i': "i < length (status s')" "status s' ! i = Queued" "i \<notin> set (queue s')"
    using assms(3,4,5) core by simp_all
  have uns: "\<not> is_settled (status s' ! i)" using i'(2) by (simp add: is_settled_def)
  from st show ?thesis
  proof
    assume a: "start_task ctx i s = settle_task i None s'"
    show ?thesis unfolding a
      using settle_task_res_ok[OF r' i'(1) uns] queue_ok_settle[OF q' i'(3)] by simp
  next
    assume c: "start_task ctx i s = s'\<lparr>status := (status s')[i := Fetching]\<rparr>"
    have "res_ok (s'\<lparr>status := (status s')[i := Fetching]\<rparr>)"
      by (rule res_ok_status_same[OF r' i'(1)])
         (simp_all add: i'(2) is_fulfilled_def is_settled_def is_rejected_def)
    moreover have "queue_ok (s'\<lparr>status := (status s')[i := Fetching]\<rparr>)"
      by (rule queue_ok_status[OF q' i'(3)])
    ultimately show ?thesis unfolding c by simp
  qed
qed

lemma sess_tryRun_inv:
  assumes "sess_inv s"
  shows "sess_inv (sess_tryRun ctx s)"
proof (rule sess_tryRun_rule[where P=sess_inv])
  show "sess_inv s" by (rule assms)
next
  fix s :: session and t q
  assume inv: "sess_inv s" and q: "queue s = t # q"
  let ?s = "s\<lparr>queue := q, running := running s + 1\<rparr>"
  have t: "t < length (status s)" "status s ! t = Queued" "t \<notin> set q" "distinct q"
    using inv q by (auto simp: sess_inv_def queue_ok_def)
  have "res_ok ?s" using inv by (simp add: sess_inv_def)
  moreover have "queue_ok ?s" using inv q t by (auto simp: sess_inv_def queue_ok_def)
  ultimately have "res_ok (start_task ctx t ?s) \<and> queue_ok (start_task ctx t ?s)"
    using t by (intro start_task_inv) simp_all
  then show "sess_inv (start_task ctx t ?s)" by (simp add: sess_inv_def)
qed

lemma resume_task_cases:
  "\<exists>s' r. resume_task ctx i outcome cb s = settle_task i r s' \<and>
     status s' = status s \<and> queue s' = queue s \<and> orderedAPIs s' = orderedAPIs s \<and>
     (res_ok s \<longrightarrow> res_ok s') \<and> (cb \<noteq> CbThrows \<longrightarrow> r = None)"
proof -
  let ?s1 = "s\<lparr>perSourceControllers := ctrl_delete (perSourceControllers s) (orderedAPIs s ! i)\<rparr>"
  let ?results = "case outcome of Inl e \<Rightarrow> [] | Inr items \<Rightarrow> items"
  obtain nu sn where fn: "filter_new ?results (seen s) = (nu, sn)" by (cases "filter_new ?results (seen s)")
  let ?s2 = "?s1\<lparr>seen := sn\<rparr>"
  let ?s3 = "?s2\<lparr>reachedTopK := reachedTopK ?s2 + 1, delivered := delivered ?s2 @ [nu]\<rparr>"
  let ?s4 = "if cb = CbAborts then fire_signal ?s3 else ?s3"
  let ?s5 = "if earlyAbortAfterTopK (ctx_config ctx) \<and> topK ?s4 \<le> int (reachedTopK ?s4) \<and> \<not> aborted ?s4
             then abortRest ?s4 else ?s4"
  have c1: "status ?s1 = status s \<and> queue ?s1 = queue s \<and> orderedAPIs ?s1 = orderedAPIs s \<and>
            (res_ok s \<longrightarrow> res_ok ?s1)" by simp
  have c2: "status ?s2 = status s \<and> queue ?s2 = queue s \<and> orderedAPIs ?s2 = orderedAPIs s \<and>
            (res_ok s \<longrightarrow> res_ok ?s2)" by simp
  have c3: "status ?s3 = status s \<and> queue ?s3 = queue s \<and> orderedAPIs ?s3 = orderedAPIs s \<and>
            (res_ok s \<longrightarrow> res_ok ?s3)" by simp
  have c4: "status ?s4 = status s \<and> queue ?s4 = queue s \<and> orderedAPIs ?s4 = orderedAPIs s \<and>
            (res_ok s \<longrightarrow> res_ok ?s4)"
    using c3 fire_signal_res_ok[of ?s3] by simp
  have c5: "status ?s5 = status s \<and> queue ?s5 = queue s \<and> orderedAPIs ?s5 = orderedAPIs s \<and>
            (res_ok s \<longrightarrow> res_ok ?s5)"
    using c4 by simp
  show ?thesis
  proof (cases "aborted s")
    case True
    have "resume_task ctx i outcome cb s = settle_task i None ?s1"
      using True by (simp add: resume_task_def Let_def)
    then show ?thesis using c1 by blast
  next
    case na: False
    show ?thesis
    proof (cases "nu = []")
      case True
      have "resume_task ctx i outcome cb s = settle_task i None ?s2"
        using na True fn by (simp add: resume_task_def Let_def)
      then show ?thesis using c2 by blast
    next
      case ne: False
      show ?thesis
      proof (cases "cb = CbThrows")
        case True
        have "resume_task ctx i outcome cb s = settle_task i (Some CallbackError) ?s3"
          using na ne fn True by (simp add: resume_task_def Let_def)
        then show ?thesis using c3 True by blast
      next
        case False
        have "resume_task ctx i outcome cb s = settle_task i None ?s5"
          using na ne fn False by (cases cb) (simp_all add: resume_task_def Let_def)
        then show ?thesis using c5 by blast
      qed
    qed
  qed
qed

lemma resume_task_inv:
  assumes "sess_inv s" "i < length (status s)" "status s ! i = Fetching"
  shows "sess_inv (resume_task ctx i outcome cb s)"
proof -
  obtain s' r where eq: "resume_task ctx i outcome cb s = settle_task i r s'"
    and core: "status s' = status s" "queue s' = queue s" "orderedAPIs s' = orderedAPIs s"
    and ok: "res_ok s \<longrightarrow> res_ok s'"
    using resume_task_cases[of ctx i outcome cb s] by blast
  have r': "res_ok s'" using assms(1) ok by (simp add: sess_inv_def)
  have q': "queue_ok s'" using assms(1) core by (simp add: sess_inv_def queue_ok_def)
  have i': "i < length (status s')" "\<not> is_settled (status s' ! i)"
    using assms(2,3) core by (simp_all add: is_settled_def)
  have "i \<notin> set (queue s')" using q' assms(3) core by (auto simp: queue_ok_def)
  then show ?thesis unfolding eq sess_inv_def
    using settle_task_res_ok[OF r' i'] queue_ok_settle[OF q'] by simp
qed

lemma release_inv:
  assumes "sess_inv s" "i < length (status s)" "status s ! i = Returned r"
  shows "sess_inv (sess_tryRun ctx (s\<lparr>status := (status s)[i := Released r], running := running s - 1\<rparr>))"
proof -
  have "res_ok (s\<lparr>status := (status s)[i := Released r]\<rparr>)"
    using assms(1) by (intro res_ok_status_same[OF _ assms(2)])
       (auto simp: sess_inv_def assms(3) is_fulfilled_def is_settled_def is_rejected_def split: option.splits)
  moreover have "i \<notin> set (queue s)" using assms(1,3) by (auto simp: sess_inv_def queue_ok_def)
  then have "queue_ok (s\<lparr>status := (status s)[i := Released r]\<rparr>)"
    using assms(1) by (intro queue_ok_status) (simp_all add: sess_inv_def)
  ultimately have "sess_inv (s\<lparr>status := (status s)[i := Released r], running := running s - 1\<rparr>)"
    by (simp add: sess_inv_def)
  then show ?thesis by (rule sess_tryRun_inv)
qed

lemma sess_step_inv: "sess_inv s \<Longrightarrow> sess_inv (sess_step ctx s e)"
proof (cases e)
  case (Fetched i outcome cb)
  assume "sess_inv s"
  then show ?thesis using Fetched by (simp add: resume_task_inv)
next
  case (Release i)
  assume "sess_inv s"
  then show ?thesis using Release by (auto simp: release_inv split: task_status.splits)
next
  case Abort
  assume "sess_inv s"
  then show ?thesis using Abort by (simp add: sess_inv_def fire_signal_res_ok)
qed

lemma sess_run_inv: "sess_inv s \<Longrightarrow> sess_inv (sess_run ctx s es)"
  by (induction es arbitrary: s) (simp_all add: sess_run_Nil sess_run_Cons sess_step_inv)

lemma submit_task_inv:
  assumes "sess_inv s" "length (status s) < length (orderedAPIs s)"
  shows "sess_inv (submit_task ctx s (length (status s)))"
proof -
  let ?n = "length (status s)"
  let ?s = "s\<lparr>queue := queue s @ [?n], status := status s @ [Queued]\<rparr>"
  have q: "queue_ok s" and r: "res_ok s" using assms(1) by (simp_all add: sess_inv_def)
  have old: "\<And>j. j < ?n \<Longrightarrow> (status s @ [Queued]) ! j = status s ! j" by (simp add: nth_append)
  have new: "(status s @ [Queued]) ! ?n = Queued" by simp
  have "?n \<notin> set (queue s)" using q by (auto simp: queue_ok_def)
  then have q': "queue_ok ?s" using q assms(2) old new by (auto simp: queue_ok_def)
  have nr: "result s \<noteq> Resolved" using r assms(2) by (auto simp: res_ok_def all_fulfilled_def)
  have ns: "\<not> all_settled ?s" by (simp add: all_settled_def is_settled_def)
  have rej: "\<And>j. j < Suc ?n \<Longrightarrow> is_rejected ((status s @ [Queued]) ! j) \<Longrightarrow>
                j < ?n \<and> is_rejected (status s ! j)"
  proof -
    fix j assume j: "j < Suc ?n" "is_rejected ((status s @ [Queued]) ! j)"
    show "j < ?n \<and> is_rejected (status s ! j)"
    proof (cases "j = ?n")
      case True
      then show ?thesis using j(2) by (simp add: is_rejected_def)
    next
      case False
      then have "j < ?n" using j(1) by simp
      then show ?thesis using j(2) old by simp
    qed
  qed
  have r': "res_ok ?s"
    unfolding res_ok_def
  proof (intro conjI impI allI)
    assume "result ?s = Resolved"
    then show "all_fulfilled ?s" using nr by simp
  next
    assume "result ?s = Pending"
    then show "signal ?s \<noteq> Some True" using r by (simp add: res_ok_def)
  next
    show "\<not> all_settled ?s" by (rule ns)
  next
    fix j assume p: "result ?s = Pending" and j: "j < length (status ?s)"
    show "\<not> is_rejected (status ?s ! j)"
    proof
      assume "is_rejected (status ?s ! j)"
      then have "j < ?n \<and> is_rejected (status s ! j)" using rej[of j] j by simp
      then show False using r p by (auto simp: res_ok_def)
    qed
  next
    fix e assume e: "result ?s = Rejected e"
    then have "(e = AbortError \<and> signal s = Some True) \<or>
               (\<exists>j<?n. is_rejected (status s ! j))"
      using r by (simp add: res_ok_def)
    then show "(e = AbortError \<and> signal ?s = Some True) \<or>
               (\<exists>j<length (status ?s). is_rejected (status ?s ! j))"
    proof
      assume "e = AbortError \<and> signal s = Some True"
      then show ?thesis by simp
    next
      assume "\<exists>j<?n. is_rejected (status s ! j)"
      then obtain j where "j < ?n" "is_rejected (status s ! j)" by blast
      then have "j < length (status ?s) \<and> is_rejected (status ?s ! j)" using old by simp
      then show ?thesis by blast
    qed
  qed
  have "sess_inv ?s" using q' r' by (simp add: sess_inv_def)
  then show ?thesis unfolding submit_task_def by (rule sess_tryRun_inv)
qed

lemma dispatch_inv:
  assumes "sess_inv s" "n \<le> length (orderedAPIs s)" "length (status s) \<le> n"
  shows "sess_inv (foldl (submit_task ctx) s [length (status s)..<n])"
  using assms(2,3)
proof (induction n)
  case 0
  then show ?case using assms(1) by simp
next
  case (Suc n)
  show ?case
  proof (cases "length (status s) = Suc n")
    case True
    then show ?thesis using assms(1) by simp
  next
    case False
    then have le: "length (status s) \<le> n" using Suc.prems by simp
    let ?m = "foldl (submit_task ctx) s [length (status s)..<n]"
    have inv: "sess_inv ?m" using Suc.IH Suc.prems le by simp
    have len: "length (status ?m) = n" using le by (simp add: dispatch_fields)
    have ord: "orderedAPIs ?m = orderedAPIs s" by (simp add: dispatch_fields)
    have "sess_inv (submit_task ctx ?m (length (status ?m)))"
      by (rule submit_task_inv[OF inv]) (use len ord Suc.prems in simp)
    then show ?thesis using le len by simp
  qed
qed

lemma aggregatedSearch_inv: "sess_inv (aggregatedSearch ctx sel sg)"
proof (cases "sel = [] \<or> sg = Some True")
  case True
  then show ?thesis
    by (auto simp: aggregatedSearch_def no_session_def sess_inv_def res_ok_def queue_ok_def
        all_fulfilled_def all_settled_def)
next
  case False
  let ?lim = "getAdaptiveConcurrency (ctx_config ctx) (ctx_effectiveType ctx) (ctx_health ctx) sel"
  let ?ord = "sort_key (\<lambda>a. - getSourceScore (ctx_health ctx) a) sel"
  let ?s0 = "\<lparr>dynamicLimit = ?lim, orderedAPIs = ?ord,
             topK = max 1 (nullish (topKFirstBatch (ctx_config ctx)) 4),
             running = 0, queue = [], status = [], aborted = False, signal = sg,
             seen = {}, reachedTopK = 0, perSourceControllers = [], ctrl_aborted = {},
             signal_listeners = [], delivered = [], searched = [], result = Pending\<rparr>"
  have ne: "?ord \<noteq> []" using False by (metis length_0_conv length_sort)
  have "sess_inv ?s0"
    using False ne by (simp add: sess_inv_def res_ok_def queue_ok_def all_settled_def)
  then have "sess_inv (foldl (submit_task ctx) ?s0 [length (status ?s0)..<length ?ord])"
    by (intro dispatch_inv) simp_all
  then show ?thesis using False by (simp add: aggregatedSearch_def Let_def)
qed















subsection \<open>Per-source controllers\<close>

lemma set_ctrl_set: "set (ctrl_set m a i) = {(k, c). (k, c) \<in> set m \<and> k \<noteq> a} \<union> {(a, i)}"
  by (auto simp: ctrl_set_def)

lemma set_ctrl_delete: "set (ctrl_delete m a) = {(k, c). (k, c) \<in> set m \<and> k \<noteq> a}"
  by (auto simp: ctrl_delete_def)

lemma ctrl_delete_set: "set (ctrl_delete (ctrl_set m a i) a) = set (ctrl_delete m a)"
  by (auto simp: set_ctrl_delete set_ctrl_set)

lemma start_task_ctrl:
  "status (start_task ctx i s) =
     (status s)[i := (if \<not> aborted s \<and> calls_search ctx (orderedAPIs s ! i)
                      then Fetching else Returned None)]"
  "set (perSourceControllers (start_task ctx i s)) =
     (if aborted s then set (perSourceControllers s)
      else if calls_search ctx (orderedAPIs s ! i)
      then set (ctrl_set (perSourceControllers s) (orderedAPIs s ! i) i)
      else set (ctrl_delete (perSourceControllers s) (orderedAPIs s ! i)))"
  "ctrl_aborted (start_task ctx i s) \<subseteq> insert i (ctrl_aborted s)"
  "set (signal_listeners (start_task ctx i s)) \<subseteq> insert i (set (signal_listeners s))"
  by (auto simp: start_task_def Let_def ctrl_delete_set split: option.splits bool.splits)

lemma ctrl_ok_start:
  assumes "ctrl_ok s" "i < length (status s)" "status s ! i = Queued"
    "length (status s) \<le> length (orderedAPIs s)"
  shows "ctrl_ok (start_task ctx i s)"
proof -
  let ?s' = "start_task ctx i s"
  let ?a = "orderedAPIs s ! i"
  let ?new = "if \<not> aborted s \<and> calls_search ctx ?a then Fetching else Returned None"
  have d: "distinct (orderedAPIs s)" using assms(1) by (simp add: ctrl_ok_def)
  have A: "\<And>j. j < length (status s) \<Longrightarrow> status s ! j = Fetching \<Longrightarrow>
              (orderedAPIs s ! j, j) \<in> set (perSourceControllers s)"
    using assms(1) by (simp add: ctrl_ok_def)
  have B: "\<And>a j. (a, j) \<in> set (perSourceControllers s) \<Longrightarrow>
              j < length (status s) \<and> status s ! j = Fetching \<and> a = orderedAPIs s ! j"
    using assms(1) by (simp add: ctrl_ok_def)
  have C: "\<And>j. j \<in> ctrl_aborted s \<Longrightarrow> j < length (status s) \<and> status s ! j \<noteq> Queued"
    using assms(1) by (simp add: ctrl_ok_def)
  have D: "\<And>j. j \<in> set (signal_listeners s) \<Longrightarrow> j < length (status s) \<and> status s ! j \<noteq> Queued"
    using assms(1) by (simp add: ctrl_ok_def)
  have st: "status ?s' = (status s)[i := ?new]" by (rule start_task_ctrl(1))
  have other: "\<And>j. j \<noteq> i \<Longrightarrow> status ?s' ! j = status s ! j" by (simp add: st)
  have at: "status ?s' ! i = ?new" using assms(2) by (simp add: st)
  have len: "length (status ?s') = length (status s)" by simp
  have newq: "?new \<noteq> Queued" by simp
  have apis: "\<And>j. j < length (status s) \<Longrightarrow> j \<noteq> i \<Longrightarrow> orderedAPIs s ! j \<noteq> ?a"
    using d assms(2,4) by (simp add: nth_eq_iff_index_eq)
  have A': "\<And>j. j < length (status ?s') \<Longrightarrow> status ?s' ! j = Fetching \<Longrightarrow>
              (orderedAPIs ?s' ! j, j) \<in> set (perSourceControllers ?s')"
  proof -
    fix j assume j: "j < length (status ?s')" "status ?s' ! j = Fetching"
    show "(orderedAPIs ?s' ! j, j) \<in> set (perSourceControllers ?s')"
    proof (cases "j = i")
      case True
      then have "\<not> aborted s \<and> calls_search ctx ?a" using j(2) at by (simp split: if_splits)
      then show ?thesis using True by (simp add: start_task_ctrl(2) set_ctrl_set)
    next
      case False
      then have "status s ! j = Fetching" using j(2) other by simp
      then have "(orderedAPIs s ! j, j) \<in> set (perSourceControllers s)" using A j(1) by simp
      moreover have "orderedAPIs s ! j \<noteq> ?a" using apis j(1) False by simp
      ultimately show ?thesis by (simp add: start_task_ctrl(2) set_ctrl_set set_ctrl_delete)
    qed
  qed
  have B': "\<And>a j. (a, j) \<in> set (perSourceControllers ?s') \<Longrightarrow>
              j < length (status ?s') \<and> status ?s' ! j = Fetching \<and> a = orderedAPIs ?s' ! j"
  proof -
    fix a j assume m: "(a, j) \<in> set (perSourceControllers ?s')"
    then consider (old) "(a, j) \<in> set (perSourceControllers s)"
      | (new) "a = ?a" "j = i" "\<not> aborted s" "calls_search ctx ?a"
      by (auto simp: start_task_ctrl(2) set_ctrl_set set_ctrl_delete split: if_splits)
    then show "j < length (status ?s') \<and> status ?s' ! j = Fetching \<and> a = orderedAPIs ?s' ! j"
    proof cases
      case old
      then have b: "j < length (status s)" "status s ! j = Fetching" "a = orderedAPIs s ! j"
        using B by simp_all
      then have "j \<noteq> i" using assms(3) by auto
      then show ?thesis using b other by simp
    next
      case new
      then show ?thesis using at assms(2) by simp
    qed
  qed
  have notq: "\<And>j. j < length (status s) \<Longrightarrow> (j = i \<or> status s ! j \<noteq> Queued) \<Longrightarrow>
                 status ?s' ! j \<noteq> Queued"
  proof -
    fix j assume j: "j < length (status s)" "j = i \<or> status s ! j \<noteq> Queued"
    show "status ?s' ! j \<noteq> Queued"
    proof (cases "j = i")
      case True
      then show ?thesis using at newq by simp
    next
      case False
      then show ?thesis using j(2) other by simp
    qed
  qed
  have C': "\<And>j. j \<in> ctrl_aborted ?s' \<Longrightarrow> j < length (status ?s') \<and> status ?s' ! j \<noteq> Queued"
  proof -
    fix j assume "j \<in> ctrl_aborted ?s'"
    then have "j = i \<or> j \<in> ctrl_aborted s" using start_task_ctrl(3)[of ctx i s] by auto
    then have "j < length (status s) \<and> (j = i \<or> status s ! j \<noteq> Queued)"
      using C assms(2) by auto
    then show "j < length (status ?s') \<and> status ?s' ! j \<noteq> Queued" using notq len by simp
  qed
  have D': "\<And>j. j \<in> set (signal_listeners ?s') \<Longrightarrow> j < length (status ?s') \<and> status ?s' ! j \<noteq> Queued"
  proof -
    fix j assume "j \<in> set (signal_listeners ?s')"
    then have "j = i \<or> j \<in> set (signal_listeners s)" using start_task_ctrl(4)[of ctx i s] by auto
    then have "j < length (status s) \<and> (j = i \<or> status s ! j \<noteq> Queued)"
      using D assms(2) by auto
    then show "j < length (status ?s') \<and> status ?s' ! j \<noteq> Queued" using notq len by simp
  qed
  show ?thesis unfolding ctrl_ok_def using d A' B' C' D' by simp
qed

lemma ctrl_ok_queue_fields [simp]:
  "ctrl_ok (s\<lparr>queue := q\<rparr>) = ctrl_ok s"
  "ctrl_ok (s\<lparr>running := r\<rparr>) = ctrl_ok s"
  by (simp_all add: ctrl_ok_def)

lemma sess_tryRun_ctrl:
  assumes "ctrl_ok s \<and> queue_ok s"
  shows "ctrl_ok (sess_tryRun ctx s) \<and> queue_ok (sess_tryRun ctx s)"
proof (rule sess_tryRun_rule[where P="\<lambda>x. ctrl_ok x \<and> queue_ok x"])
  show "ctrl_ok s \<and> queue_ok s" by (rule assms)
next
  fix s :: session and t q
  assume inv: "ctrl_ok s \<and> queue_ok s" and q: "queue s = t # q"
  let ?s = "s\<lparr>queue := q, running := running s + 1\<rparr>"
  have t: "t < length (status s)" "status s ! t = Queued" "t \<notin> set q" "distinct q"
    "length (status s) \<le> length (orderedAPIs s)"
    using inv q by (auto simp: queue_ok_def)
  have c: "ctrl_ok (start_task ctx t ?s)"
    using inv t by (intro ctrl_ok_start) simp_all
  have qo: "queue_ok ?s" using inv q t by (auto simp: queue_ok_def)
  obtain s' where core: "status s' = status ?s" "queue s' = queue ?s" "orderedAPIs s' = orderedAPIs ?s"
    and st: "start_task ctx t ?s = settle_task t None s' \<or>
         start_task ctx t ?s = s'\<lparr>status := (status s')[t := Fetching]\<rparr>"
    using start_task_cases[of ?s ctx t] by blast
  have q': "queue_ok s'" using qo core by (simp add: queue_ok_def)
  have "t \<notin> set (queue s')" using core t by simp
  then have "queue_ok (start_task ctx t ?s)"
    using st queue_ok_settle[OF q'] queue_ok_status[OF q'] by auto
  then show "ctrl_ok (start_task ctx t ?s) \<and> queue_ok (start_task ctx t ?s)" using c by simp
qed

lemma resume_task_ctrl:
  "\<exists>r. status (resume_task ctx i outcome cb s) = (status s)[i := Returned r]"
  "perSourceControllers (resume_task ctx i outcome cb s) =
     ctrl_delete (perSourceControllers s) (orderedAPIs s ! i)"
  "signal_listeners (resume_task ctx i outcome cb s) = signal_listeners s"
  "ctrl_aborted (resume_task ctx i outcome cb s) \<subseteq>
     ctrl_aborted s \<union> snd ` set (ctrl_delete (perSourceControllers s) (orderedAPIs s ! i)) \<union>
     set (signal_listeners s)"
  by (auto simp: resume_task_def Let_def fire_signal_flags split: prod.splits callback.splits if_splits)

lemma ctrl_ok_update:
  assumes "ctrl_ok s" "i < length (status s)" "st \<noteq> Queued" "st \<noteq> Fetching"
    "status s' = (status s)[i := st]" "orderedAPIs s' = orderedAPIs s"
    "set (perSourceControllers s') \<subseteq> set (perSourceControllers s)"
    "\<And>j. j < length (status s) \<Longrightarrow> j \<noteq> i \<Longrightarrow> status s ! j = Fetching \<Longrightarrow>
        (orderedAPIs s ! j, j) \<in> set (perSourceControllers s')"
    "\<And>a. (a, i) \<notin> set (perSourceControllers s')"
    "ctrl_aborted s' \<subseteq> ctrl_aborted s \<union> snd ` set (perSourceControllers s) \<union> set (signal_listeners s)"
    "set (signal_listeners s') \<subseteq> set (signal_listeners s)"
  shows "ctrl_ok s'"
proof -
  have B: "\<And>a j. (a, j) \<in> set (perSourceControllers s) \<Longrightarrow>
              j < length (status s) \<and> status s ! j = Fetching \<and> a = orderedAPIs s ! j"
    using assms(1) by (simp add: ctrl_ok_def)
  have C: "\<And>j. j \<in> ctrl_aborted s \<Longrightarrow> j < length (status s) \<and> status s ! j \<noteq> Queued"
    using assms(1) by (simp add: ctrl_ok_def)
  have D: "\<And>j. j \<in> set (signal_listeners s) \<Longrightarrow> j < length (status s) \<and> status s ! j \<noteq> Queued"
    using assms(1) by (simp add: ctrl_ok_def)
  have other: "\<And>j. j \<noteq> i \<Longrightarrow> status s' ! j = status s ! j" by (simp add: assms(5))
  have at: "status s' ! i = st" using assms(2) by (simp add: assms(5))
  have len: "length (status s') = length (status s)" by (simp add: assms(5))
  have notq: "\<And>j. j < length (status s) \<Longrightarrow> status s ! j \<noteq> Queued \<Longrightarrow> status s' ! j \<noteq> Queued"
  proof -
    fix j assume "j < length (status s)" "status s ! j \<noteq> Queued"
    then show "status s' ! j \<noteq> Queued" using at other assms(3) by (cases "j = i") simp_all
  qed
  have A': "\<And>j. j < length (status s') \<Longrightarrow> status s' ! j = Fetching \<Longrightarrow>
              (orderedAPIs s' ! j, j) \<in> set (perSourceControllers s')"
  proof -
    fix j assume j: "j < length (status s')" "status s' ! j = Fetching"
    then have "j \<noteq> i" using at assms(4) by auto
    then show "(orderedAPIs s' ! j, j) \<in> set (perSourceControllers s')"
      using j other len assms(6,8) by simp
  qed
  have B': "\<And>a j. (a, j) \<in> set (perSourceControllers s') \<Longrightarrow>
              j < length (status s') \<and> status s' ! j = Fetching \<and> a = orderedAPIs s' ! j"
  proof -
    fix a j assume m: "(a, j) \<in> set (perSourceControllers s')"
    then have "j \<noteq> i" using assms(9) by auto
    moreover have "(a, j) \<in> set (perSourceControllers s)" using m assms(7) by auto
    ultimately show "j < length (status s') \<and> status s' ! j = Fetching \<and> a = orderedAPIs s' ! j"
      using B other len assms(6) by simp
  qed
  have C': "\<And>j. j \<in> ctrl_aborted s' \<Longrightarrow> j < length (status s') \<and> status s' ! j \<noteq> Queued"
  proof -
    fix j assume "j \<in> ctrl_aborted s'"
    then have "j \<in> ctrl_aborted s \<or> j \<in> snd ` set (perSourceControllers s) \<or>
               j \<in> set (signal_listeners s)" using assms(10) by auto
    then have "j < length (status s) \<and> status s ! j \<noteq> Queued"
      using B C D by (auto simp: image_iff) 
    then show "j < length (status s') \<and> status s' ! j \<noteq> Queued" using notq len by simp
  qed
  have D': "\<And>j. j \<in> set (signal_listeners s') \<Longrightarrow> j < length (status s') \<and> status s' ! j \<noteq> Queued"
  proof -
    fix j assume "j \<in> set (signal_listeners s')"
    then have "j < length (status s) \<and> status s ! j \<noteq> Queued" using D assms(11) by auto
    then show "j < length (status s') \<and> status s' ! j \<noteq> Queued" using notq len by simp
  qed
  have "distinct (orderedAPIs s')" using assms(1,6) by (simp add: ctrl_ok_def)
  then show ?thesis unfolding ctrl_ok_def using A' B' C' D' by simp
qed

lemma ctrl_ok_resume:
  assumes "ctrl_ok s" "i < length (status s)" "status s ! i = Fetching"
    "length (status s) \<le> length (orderedAPIs s)"
  shows "ctrl_ok (resume_task ctx i outcome cb s)"
proof -
  let ?s' = "resume_task ctx i outcome cb s"
  let ?a = "orderedAPIs s ! i"
  obtain r where st: "status ?s' = (status s)[i := Returned r]"
    using resume_task_ctrl(1)[of ctx i outcome cb s] by blast
  have d: "distinct (orderedAPIs s)" using assms(1) by (simp add: ctrl_ok_def)
  have A: "\<And>j. j < length (status s) \<Longrightarrow> status s ! j = Fetching \<Longrightarrow>
              (orderedAPIs s ! j, j) \<in> set (perSourceControllers s)"
    using assms(1) by (simp add: ctrl_ok_def)
  have B: "\<And>a j. (a, j) \<in> set (perSourceControllers s) \<Longrightarrow>
              j < length (status s) \<and> status s ! j = Fetching \<and> a = orderedAPIs s ! j"
    using assms(1) by (simp add: ctrl_ok_def)
  have apis: "\<And>j. j < length (status s) \<Longrightarrow> j \<noteq> i \<Longrightarrow> orderedAPIs s ! j \<noteq> ?a"
    using d assms(2,4) by (simp add: nth_eq_iff_index_eq)
  show ?thesis
  proof (rule ctrl_ok_update[OF assms(1,2) _ _ st])
    show "Returned r \<noteq> Queued" "Returned r \<noteq> Fetching" by simp_all
    show "orderedAPIs ?s' = orderedAPIs s" by (rule resume_task_keeps(2))
    show "set (perSourceControllers ?s') \<subseteq> set (perSourceControllers s)"
      by (auto simp: resume_task_ctrl(2) set_ctrl_delete)
    show "\<And>j. j < length (status s) \<Longrightarrow> j \<noteq> i \<Longrightarrow> status s ! j = Fetching \<Longrightarrow>
        (orderedAPIs s ! j, j) \<in> set (perSourceControllers ?s')"
      using A apis by (simp add: resume_task_ctrl(2) set_ctrl_delete)
    show "\<And>a. (a, i) \<notin> set (perSourceControllers ?s')"
      using B by (auto simp: resume_task_ctrl(2) set_ctrl_delete)
    show "ctrl_aborted ?s' \<subseteq> ctrl_aborted s \<union> snd ` set (perSourceControllers s) \<union>
            set (signal_listeners s)"
      using resume_task_ctrl(4)[of ctx i outcome cb s] by (auto simp: set_ctrl_delete)
    show "set (signal_listeners ?s') \<subseteq> set (signal_listeners s)"
      by (simp add: resume_task_ctrl(3))
  qed
qed

lemma ctrl_ok_release:
  assumes "ctrl_ok s" "i < length (status s)" "status s ! i = Returned r"
  shows "ctrl_ok (s\<lparr>status := (status s)[i := Released r], running := n\<rparr>)"
proof (rule ctrl_ok_update[OF assms(1,2)])
  show "Released r \<noteq> Queued" "Released r \<noteq> Fetching" by simp_all
  show "status (s\<lparr>status := (status s)[i := Released r], running := n\<rparr>) = (status s)[i := Released r]"
    by simp
  show "\<And>j. j < length (status s) \<Longrightarrow> j \<noteq> i \<Longrightarrow> status s ! j = Fetching \<Longrightarrow>
        (orderedAPIs s ! j, j) \<in> set (perSourceControllers (s\<lparr>status := (status s)[i := Released r], running := n\<rparr>))"
    using assms(1) by (simp add: ctrl_ok_def)
  show "\<And>a. (a, i) \<notin> set (perSourceControllers (s\<lparr>status := (status s)[i := Released r], running := n\<rparr>))"
    using assms(1,3) by (auto simp: ctrl_ok_def)
qed auto

lemma ctrl_ok_fire: "ctrl_ok s \<Longrightarrow> ctrl_ok (fire_signal s)"
  unfolding ctrl_ok_def by (cases "signal s = Some False") (auto simp: fire_signal_flags)

lemma sess_step_ctrl:
  assumes "queue_ok s" "ctrl_ok s"
  shows "ctrl_ok (sess_step ctx s e)"
proof (cases e)
  case (Fetched i outcome cb)
  have "length (status s) \<le> length (orderedAPIs s)" using assms(1) by (simp add: queue_ok_def)
  then show ?thesis using Fetched assms(2) by (simp add: ctrl_ok_resume)
next
  case (Release i)
  show ?thesis
  proof (cases "i < length (status s)")
    case False
    then show ?thesis using Release assms(2) by simp
  next
    case True
    show ?thesis
    proof (cases "status s ! i")
      case (Returned r)
      let ?s = "s\<lparr>status := (status s)[i := Released r], running := running s - 1\<rparr>"
      have c: "ctrl_ok ?s" by (rule ctrl_ok_release[OF assms(2) True Returned])
      have "i \<notin> set (queue s)" using assms(1) Returned by (auto simp: queue_ok_def)
      then have "queue_ok (s\<lparr>status := (status s)[i := Released r]\<rparr>)"
        by (rule queue_ok_status[OF assms(1)])
      then have "queue_ok ?s" by simp
      then have "ctrl_ok (sess_tryRun ctx ?s)" using c sess_tryRun_ctrl[of ?s ctx] by simp
      then show ?thesis using Release True Returned by simp
    qed (use Release True assms(2) in simp_all)
  qed
next
  case Abort
  then show ?thesis using assms(2) by (simp add: ctrl_ok_fire)
qed

lemma sess_run_ctrl:
  "sess_inv s \<Longrightarrow> ctrl_ok s \<Longrightarrow> sess_inv (sess_run ctx s es) \<and> ctrl_ok (sess_run ctx s es)"
proof (induction es arbitrary: s)
  case Nil
  then show ?case by (simp add: sess_run_Nil)
next
  case (Cons e es)
  have "sess_inv (sess_step ctx s e)" by (rule sess_step_inv[OF Cons.prems(1)])
  moreover have "ctrl_ok (sess_step ctx s e)"
    using Cons.prems by (intro sess_step_ctrl) (simp_all add: sess_inv_def)
  ultimately show ?case unfolding sess_run_Cons by (rule Cons.IH)
qed

lemma submit_task_ctrl:
  assumes "queue_ok s" "ctrl_ok s" "length (status s) < length (orderedAPIs s)"
  shows "ctrl_ok (submit_task ctx s (length (status s))) \<and>
         queue_ok (submit_task ctx s (length (status s)))"
proof -
  let ?n = "length (status s)"
  let ?s = "s\<lparr>queue := queue s @ [?n], status := status s @ [Queued]\<rparr>"
  have old: "\<And>j. j < ?n \<Longrightarrow> (status s @ [Queued]) ! j = status s ! j" by (simp add: nth_append)
  have new: "(status s @ [Queued]) ! ?n = Queued" by simp
  have "?n \<notin> set (queue s)" using assms(1) by (auto simp: queue_ok_def)
  then have q': "queue_ok ?s" using assms(1,3) old new by (auto simp: queue_ok_def)
  have A': "\<And>j. j < Suc ?n \<Longrightarrow> (status s @ [Queued]) ! j = Fetching \<Longrightarrow>
              (orderedAPIs s ! j, j) \<in> set (perSourceControllers s)"
  proof -
    fix j assume j: "j < Suc ?n" "(status s @ [Queued]) ! j = Fetching"
    then have "j \<noteq> ?n" using new by auto
    then have "j < ?n" using j(1) by simp
    then show "(orderedAPIs s ! j, j) \<in> set (perSourceControllers s)"
      using j(2) old assms(2) by (simp add: ctrl_ok_def)
  qed
  have lift: "\<And>j. j < ?n \<and> status s ! j \<noteq> Queued \<Longrightarrow>
                j < Suc ?n \<and> (status s @ [Queued]) ! j \<noteq> Queued"
    using old by simp
  have B': "\<And>a j. (a, j) \<in> set (perSourceControllers s) \<Longrightarrow>
              j < Suc ?n \<and> (status s @ [Queued]) ! j = Fetching \<and> a = orderedAPIs s ! j"
  proof -
    fix a j assume "(a, j) \<in> set (perSourceControllers s)"
    then have "j < ?n \<and> status s ! j = Fetching \<and> a = orderedAPIs s ! j"
      using assms(2) by (simp add: ctrl_ok_def)
    then show "j < Suc ?n \<and> (status s @ [Queued]) ! j = Fetching \<and> a = orderedAPIs s ! j"
      using old by simp
  qed
  have C': "\<And>j. j \<in> ctrl_aborted s \<Longrightarrow> j < Suc ?n \<and> (status s @ [Queued]) ! j \<noteq> Queued"
  proof -
    fix j assume "j \<in> ctrl_aborted s"
    then have "j < ?n \<and> status s ! j \<noteq> Queued" using assms(2) by (simp add: ctrl_ok_def)
    then show "j < Suc ?n \<and> (status s @ [Queued]) ! j \<noteq> Queued" by (rule lift)
  qed
  have D': "\<And>j. j \<in> set (signal_listeners s) \<Longrightarrow> j < Suc ?n \<and> (status s @ [Queued]) ! j \<noteq> Queued"
  proof -
    fix j assume "j \<in> set (signal_listeners s)"
    then have "j < ?n \<and> status s ! j \<noteq> Queued" using assms(2) by (simp add: ctrl_ok_def)
    then show "j < Suc ?n \<and> (status s @ [Queued]) ! j \<noteq> Queued" by (rule lift)
  qed
  have "distinct (orderedAPIs s)" using assms(2) by (simp add: ctrl_ok_def)
  then have "ctrl_ok ?s" unfolding ctrl_ok_def using A' B' C' D' by simp
  then show ?thesis unfolding submit_task_def using q' sess_tryRun_ctrl[of ?s ctx] by simp
qed

lemma dispatch_ctrl:
  assumes "queue_ok s \<and> ctrl_ok s" "n \<le> length (orderedAPIs s)" "length (status s) \<le> n"
  shows "queue_ok (foldl (submit_task ctx) s [length (status s)..<n]) \<and>
         ctrl_ok (foldl (submit_task ctx) s [length (status s)..<n])"
  using assms(2,3)
proof (induction n)
  case 0
  then show ?case using assms(1) by simp
next
  case (Suc n)
  show ?case
  proof (cases "length (status s) = Suc n")
    case True
    then show ?thesis using assms(1) by simp
  next
    case False
    then have le: "length (status s) \<le> n" using Suc.prems by simp
    let ?m = "foldl (submit_task ctx) s [length (status s)..<n]"
    have inv: "queue_ok ?m \<and> ctrl_ok ?m" using Suc.IH Suc.prems le by simp
    have len: "length (status ?m) = n" using le by (simp add: dispatch_fields)
    have ord: "orderedAPIs ?m = orderedAPIs s" by (simp add: dispatch_fields)
    have "ctrl_ok (submit_task ctx ?m (length (status ?m))) \<and>
          queue_ok (submit_task ctx ?m (length (status ?m)))"
      using inv by (intro submit_task_ctrl) (use len ord Suc.prems in simp_all)
    then show ?thesis using le len by simp
  qed
qed

lemma aggregatedSearch_ctrl:
  assumes "distinct sel"
  shows "ctrl_ok (aggregatedSearch ctx sel sg)"
proof (cases "sel = [] \<or> sg = Some True")
  case True
  then show ?thesis by (auto simp: aggregatedSearch_def no_session_def ctrl_ok_def)
next
  case False
  let ?lim = "getAdaptiveConcurrency (ctx_config ctx) (ctx_effectiveType ctx) (ctx_health ctx) sel"
  let ?ord = "sort_key (\<lambda>a. - getSourceScore (ctx_health ctx) a) sel"
  let ?s0 = "\<lparr>dynamicLimit = ?lim, orderedAPIs = ?ord,
             topK = max 1 (nullish (topKFirstBatch (ctx_config ctx)) 4),
             running = 0, queue = [], status = [], aborted = False, signal = sg,
             seen = {}, reachedTopK = 0, perSourceControllers = [], ctrl_aborted = {},
             signal_listeners = [], delivered = [], searched = [], result = Pending\<rparr>"
  have "queue_ok ?s0 \<and> ctrl_ok ?s0" using assms by (simp add: queue_ok_def ctrl_ok_def)
  then have "queue_ok (foldl (submit_task ctx) ?s0 [length (status ?s0)..<length ?ord]) \<and>
             ctrl_ok (foldl (submit_task ctx) ?s0 [length (status ?s0)..<length ?ord])"
    by (intro dispatch_ctrl) simp_all
  then show ?thesis using False by (simp add: aggregatedSearch_def Let_def)
qed

lemma resume_task_early:
  assumes "\<not> aborted s" "fst (filter_new items (seen s)) \<noteq> []" "cb \<noteq> CbThrows"
    "earlyAbortAfterTopK (ctx_config ctx)" "topK s \<le> int (reachedTopK s) + 1"
  shows "delivered (resume_task ctx i (Inr items) cb s) =
           delivered s @ [fst (filter_new items (seen s))]"
    and "snd ` set (ctrl_delete (perSourceControllers s) (orderedAPIs s ! i)) \<subseteq>
           ctrl_aborted (resume_task ctx i (Inr items) cb s)"
proof -
  obtain nu sn where fn: "filter_new items (seen s) = (nu, sn)" by (cases "filter_new items (seen s)")
  have ne: "nu \<noteq> []" using assms(2) fn by simp
  show "delivered (resume_task ctx i (Inr items) cb s) =
           delivered s @ [fst (filter_new items (seen s))]"
    using assms(1,3) ne fn
    by (cases cb) (simp_all add: resume_task_def Let_def)
  show "snd ` set (ctrl_delete (perSourceControllers s) (orderedAPIs s ! i)) \<subseteq>
           ctrl_aborted (resume_task ctx i (Inr items) cb s)"
  proof (cases cb)
    case CbReturns
    then show ?thesis using assms(1,4,5) ne fn by (simp add: resume_task_def Let_def)
  next
    case CbThrows
    then show ?thesis using assms(3) by simp
  next
    case CbAborts
    show ?thesis
    proof (cases "signal s = Some False")
      case True
      then show ?thesis using CbAborts assms(1) ne fn
        by (auto simp: resume_task_def Let_def fire_signal_flags)
    next
      case False
      then show ?thesis using CbAborts assms(1,4,5) ne fn
        by (auto simp: resume_task_def Let_def fire_signal_def)
    qed
  qed
qed

text \<open>
  Claim C5, as the code has it.  For any selection of distinct sources and
  any execution: when a source's task comes back with at least one new item
  while the session is not aborted, early abort is configured and this
  contribution reaches the top-K count, then, once the callback has been
  called with these items (and has not thrown), every other source that is
  in flight at that moment has its controller aborted while still waiting
  for its fetch, and every source still queued in the limiter stays queued
  with no controller aborted.
\<close>

theorem early_abort_in_flight:
  assumes "distinct sel"
    and "s = sess_run ctx (aggregatedSearch ctx sel sg) es"
    and "i < length (status s)" and "status s ! i = Fetching" and "\<not> aborted s"
    and "fst (filter_new items (seen s)) \<noteq> []" and "cb \<noteq> CbThrows"
    and "earlyAbortAfterTopK (ctx_config ctx)" and "topK s \<le> int (reachedTopK s) + 1"
    and "s' = sess_step ctx s (Fetched i (Inr items) cb)"
  shows "delivered s' = delivered s @ [fst (filter_new items (seen s))] \<and>
     (\<forall>j<length (status s). j \<noteq> i \<and> status s ! j = Fetching \<longrightarrow>
        j \<in> ctrl_aborted s' \<and> status s' ! j = Fetching) \<and>
     (\<forall>j<length (status s). status s ! j = Queued \<longrightarrow>
        j \<notin> ctrl_aborted s' \<and> status s' ! j = Queued)"
proof -
  let ?a = "orderedAPIs s ! i"
  have inv: "sess_inv s \<and> ctrl_ok s"
    unfolding assms(2)
    by (rule sess_run_ctrl[OF aggregatedSearch_inv aggregatedSearch_ctrl[OF assms(1)]])
  have q: "queue_ok s" and c: "ctrl_ok s" using inv by (simp_all add: sess_inv_def)
  have le: "length (status s) \<le> length (orderedAPIs s)" using q by (simp add: queue_ok_def)
  have d: "distinct (orderedAPIs s)" using c by (simp add: ctrl_ok_def)
  have s': "s' = resume_task ctx i (Inr items) cb s" using assms(3,4,10) by simp
  obtain r where st: "status s' = (status s)[i := Returned r]"
    unfolding s' using resume_task_ctrl(1)[of ctx i "Inr items" cb s] by blast
  have dl: "delivered s' = delivered s @ [fst (filter_new items (seen s))]"
    unfolding s' by (rule resume_task_early(1)[OF assms(5,6,7,8,9)])
  have ab: "snd ` set (ctrl_delete (perSourceControllers s) ?a) \<subseteq> ctrl_aborted s'"
    unfolding s' by (rule resume_task_early(2)[OF assms(5,6,7,8,9)])
  have up: "ctrl_aborted s' \<subseteq> ctrl_aborted s \<union>
      snd ` set (ctrl_delete (perSourceControllers s) ?a) \<union> set (signal_listeners s)"
    unfolding s' by (rule resume_task_ctrl(4))
  have fl: "\<forall>j<length (status s). j \<noteq> i \<and> status s ! j = Fetching \<longrightarrow>
        j \<in> ctrl_aborted s' \<and> status s' ! j = Fetching"
  proof (intro allI impI)
    fix j assume j: "j < length (status s)" "j \<noteq> i \<and> status s ! j = Fetching"
    have "(orderedAPIs s ! j, j) \<in> set (perSourceControllers s)"
      using c j by (simp add: ctrl_ok_def)
    moreover have "orderedAPIs s ! j \<noteq> ?a"
      using d j assms(3) le by (simp add: nth_eq_iff_index_eq)
    ultimately have "(orderedAPIs s ! j, j) \<in> set (ctrl_delete (perSourceControllers s) ?a)"
      by (simp add: set_ctrl_delete)
    then have "j \<in> snd ` set (ctrl_delete (perSourceControllers s) ?a)" by force
    then show "j \<in> ctrl_aborted s' \<and> status s' ! j = Fetching" using ab j st by auto
  qed
  have qd: "\<forall>j<length (status s). status s ! j = Queued \<longrightarrow>
        j \<notin> ctrl_aborted s' \<and> status s' ! j = Queued"
  proof (intro allI impI)
    fix j assume j: "j < length (status s)" "status s ! j = Queued"
    have ji: "j \<noteq> i" using j(2) assms(4) by auto
    have 1: "j \<notin> ctrl_aborted s" using c j(2) by (auto simp: ctrl_ok_def)
    have 2: "j \<notin> set (signal_listeners s)" using c j(2) by (auto simp: ctrl_ok_def)
    have 3: "j \<notin> snd ` set (ctrl_delete (perSourceControllers s) ?a)"
    proof
      assume "j \<in> snd ` set (ctrl_delete (perSourceControllers s) ?a)"
      then obtain a where "(a, j) \<in> set (perSourceControllers s)"
        by (auto simp: set_ctrl_delete)
      then have "status s ! j = Fetching" using c by (simp add: ctrl_ok_def)
      then show False using j(2) by simp
    qed
    show "j \<notin> ctrl_aborted s' \<and> status s' ! j = Queued"
      using 1 2 3 up ji j(2) st by auto
  qed
  show ?thesis using dl fl qd by blast
qed

subsection \<open>Sessions on a fresh health store\<close>

lemma health_totals_empty: "health_totals Map.empty ids acc = acc"
  by (induction ids arbitrary: acc) (auto split: prod.splits)

lemma plan_fresh:
  "getAdaptiveConcurrency cfg None Map.empty sel =
     min (nullish (maxConcurrency cfg) 6)
       (max (nullish (minConcurrency cfg) 1) (nullish (baseConcurrency cfg) 3))"
  by (simp add: getAdaptiveConcurrency_def health_totals_empty getNetworkFactor_def Let_def)

lemma order_fresh: "sort_key (\<lambda>a. - getSourceScore Map.empty a) sel = sel"
  by (simp add: getSourceScore_def sort_key_const)

lemma aggregatedSearch_fresh:
  assumes "sel \<noteq> []" "sg \<noteq> Some True"
  shows "aggregatedSearch (fresh_ctx cfg names) sel sg =
         foldl (submit_task (fresh_ctx cfg names)) (fresh_session cfg sel sg) [0..<length sel]"
  using assms
  by (simp add: aggregatedSearch_def fresh_ctx_def fresh_session_def plan_fresh order_fresh Let_def)

lemma calls_search_fresh:
  "n \<in> set names \<Longrightarrow> \<not> starts_with ''custom_'' n \<Longrightarrow> calls_search (fresh_ctx cfg names) n"
  by (auto simp: calls_search_def fresh_ctx_def sites_env_def map_of_eq_None_iff image_iff)

lemma config_fresh: "ctx_config (fresh_ctx cfg names) = cfg"
  by (simp add: fresh_ctx_def)

lemmas session_eval = submit_task_def sess_tryRun.simps start_task_def settle_task_def
  fresh_session_def nullish_def all_fulfilled_def all_settled_def is_fulfilled_def is_settled_def
  calls_search_fresh starts_with_def Let_def sess_run_def resume_task_def fire_signal_def
  abortRest_def ctrl_set_def ctrl_delete_def dedup_key_def item_of_def config_fresh

lemma five_narrow_start:
  "aggregatedSearch (fresh_ctx top2_config five) five None =
     \<lparr>dynamicLimit = 3, orderedAPIs = five, topK = 2, running = 3, queue = [3, 4],
      status = [Fetching, Fetching, Fetching, Queued, Queued], aborted = False, signal = None,
      seen = {}, reachedTopK = 0,
      perSourceControllers = [(''s1'', 0), (''s2'', 1), (''s3'', 2)], ctrl_aborted = {},
      signal_listeners = [], delivered = [], searched = [0, 1, 2], result = Pending\<rparr>"
  apply (subst aggregatedSearch_fresh)
    apply (simp_all add: five_def)
  apply (simp add: session_eval top2_config_def)
  done

lemma five_wide_start:
  "aggregatedSearch (fresh_ctx wide_config five) five None =
     \<lparr>dynamicLimit = 5, orderedAPIs = five, topK = 2, running = 5, queue = [],
      status = [Fetching, Fetching, Fetching, Fetching, Fetching], aborted = False,
      signal = None, seen = {}, reachedTopK = 0,
      perSourceControllers = [(''s1'', 0), (''s2'', 1), (''s3'', 2), (''s4'', 3), (''s5'', 4)],
      ctrl_aborted = {}, signal_listeners = [], delivered = [], searched = [0, 1, 2, 3, 4],
      result = Pending\<rparr>"
  apply (subst aggregatedSearch_fresh)
    apply (simp_all add: five_def)
  apply (simp add: session_eval wide_config_def)
  done

lemma pair_start:
  "aggregatedSearch (fresh_ctx default_config five) pair (Some False) =
     \<lparr>dynamicLimit = 3, orderedAPIs = pair, topK = 4, running = 2, queue = [],
      status = [Fetching, Fetching], aborted = False, signal = Some False,
      seen = {}, reachedTopK = 0,
      perSourceControllers = [(''s1'', 0), (''s2'', 1)], ctrl_aborted = {},
      signal_listeners = [0, 1], delivered = [], searched = [0, 1], result = Pending\<rparr>"
  apply (subst aggregatedSearch_fresh)
    apply (simp_all add: pair_def)
  apply (simp add: session_eval default_config_def five_def)
  done

lemma clash_start:
  "aggregatedSearch clash_ctx [''a_b'', ''a''] None =
     \<lparr>dynamicLimit = 3, orderedAPIs = [''a_b'', ''a''], topK = 4, running = 2, queue = [],
      status = [Fetching, Fetching], aborted = False, signal = None,
      seen = {}, reachedTopK = 0,
      perSourceControllers = [(''a_b'', 0), (''a'', 1)], ctrl_aborted = {},
      signal_listeners = [], delivered = [], searched = [0, 1], result = Pending\<rparr>"
  unfolding clash_ctx_def
  apply (subst aggregatedSearch_fresh)
    apply simp_all
  apply (simp add: session_eval default_config_def)
  done

lemma five_wide_first:
  "sess_run (fresh_ctx wide_config five) (aggregatedSearch (fresh_ctx wide_config five) five None)
     [Fetched 0 (Inr [i1]) CbReturns] =
     \<lparr>dynamicLimit = 5, orderedAPIs = five, topK = 2, running = 5, queue = [],
      status = [Returned None, Fetching, Fetching, Fetching, Fetching], aborted = False,
      signal = None, seen = {''s1_1''}, reachedTopK = 1,
      perSourceControllers = [(''s2'', 1), (''s3'', 2), (''s4'', 3), (''s5'', 4)],
      ctrl_aborted = {}, signal_listeners = [], delivered = [[i1]], searched = [0, 1, 2, 3, 4],
      result = Pending\<rparr>"
  unfolding five_wide_start
  by (simp add: session_eval five_def i1_def wide_config_def)

text \<open>
  The amended claim C5 with a limit of five: all five sources are in flight,
  the first has contributed, and when the second contributes the controllers
  of the third, fourth and fifth are aborted while they wait.
\<close>

theorem early_abort_in_flight_witness:
  "distinct five \<and>
   status (sess_run (fresh_ctx wide_config five)
      (aggregatedSearch (fresh_ctx wide_config five) five None) [Fetched 0 (Inr [i1]) CbReturns])
     = [Returned None, Fetching, Fetching, Fetching, Fetching] \<and>
   reachedTopK (sess_run (fresh_ctx wide_config five)
      (aggregatedSearch (fresh_ctx wide_config five) five None) [Fetched 0 (Inr [i1]) CbReturns]) = 1 \<and>
   topK (sess_run (fresh_ctx wide_config five)
      (aggregatedSearch (fresh_ctx wide_config five) five None) [Fetched 0 (Inr [i1]) CbReturns]) = 2 \<and>
   2 \<in> ctrl_aborted (sess_run (fresh_ctx wide_config five)
      (aggregatedSearch (fresh_ctx wide_config five) five None)
      [Fetched 0 (Inr [i1]) CbReturns, Fetched 1 (Inr [i2]) CbReturns]) \<and>
   3 \<in> ctrl_aborted (sess_run (fresh_ctx wide_config five)
      (aggregatedSearch (fresh_ctx wide_config five) five None)
      [Fetched 0 (Inr [i1]) CbReturns, Fetched 1 (Inr [i2]) CbReturns]) \<and>
   4 \<in> ctrl_aborted (sess_run (fresh_ctx wide_config five)
      (aggregatedSearch (fresh_ctx wide_config five) five None)
      [Fetched 0 (Inr [i1]) CbReturns, Fetched 1 (Inr [i2]) CbReturns])"
proof -
  let ?ctx = "fresh_ctx wide_config five"
  let ?s = "sess_run ?ctx (aggregatedSearch ?ctx five None) [Fetched 0 (Inr [i1]) CbReturns]"
  let ?s' = "sess_step ?ctx ?s (Fetched 1 (Inr [i2]) CbReturns)"
  have d: "distinct five" by (simp add: five_def)
  have st: "status ?s = [Returned None, Fetching, Fetching, Fetching, Fetching]"
    and rk: "reachedTopK ?s = 1" and tk: "topK ?s = 2" and na: "\<not> aborted ?s"
    and sn: "seen ?s = {''s1_1''}"
    unfolding five_wide_first by simp_all
  have nu: "fst (filter_new [i2] (seen ?s)) \<noteq> []"
    unfolding sn by (simp add: i2_def item_of_def dedup_key_def)
  have ea: "earlyAbortAfterTopK (ctx_config ?ctx)" by (simp add: config_fresh wide_config_def)
  have th: "\<forall>j<length (status ?s). j \<noteq> 1 \<and> status ?s ! j = Fetching \<longrightarrow>
        j \<in> ctrl_aborted ?s' \<and> status ?s' ! j = Fetching"
    using early_abort_in_flight[OF d refl, of 1 ?ctx None "[Fetched 0 (Inr [i1]) CbReturns]"
        "[i2]" CbReturns ?s'] st na nu ea rk tk
    by simp
  have "2 \<in> ctrl_aborted ?s'" "3 \<in> ctrl_aborted ?s'" "4 \<in> ctrl_aborted ?s'"
    using th st by simp_all
  moreover have "sess_run ?ctx (aggregatedSearch ?ctx five None)
      [Fetched 0 (Inr [i1]) CbReturns, Fetched 1 (Inr [i2]) CbReturns] = ?s'"
    by (simp add: sess_run_def)
  ultimately show ?thesis using d st rk tk by simp
qed

text \<open>
  Claim C5 as stated fails under the default limit of three: when the second
  source contributes, the fifth is still queued in the limiter, has no
  controller and is not aborted; the limiter starts it afterwards and it is
  searched like any other.
\<close>

theorem early_abort_queued_counterexample:
  "delivered (sess_run (fresh_ctx top2_config five)
      (aggregatedSearch (fresh_ctx top2_config five) five None) two_contributed) = [[i1], [i2]] \<and>
   status (sess_run (fresh_ctx top2_config five)
      (aggregatedSearch (fresh_ctx top2_config five) five None) two_contributed) =
     [Released None, Returned None, Fetching, Fetching, Queued] \<and>
   ctrl_aborted (sess_run (fresh_ctx top2_config five)
      (aggregatedSearch (fresh_ctx top2_config five) five None) two_contributed) = {2, 3} \<and>
   status (sess_run (fresh_ctx top2_config five)
      (aggregatedSearch (fresh_ctx top2_config five) five None) (two_contributed @ [Release 1])) =
     [Released None, Released None, Fetching, Fetching, Fetching] \<and>
   searched (sess_run (fresh_ctx top2_config five)
      (aggregatedSearch (fresh_ctx top2_config five) five None) (two_contributed @ [Release 1])) =
     [0, 1, 2, 3, 4] \<and>
   4 \<notin> ctrl_aborted (sess_run (fresh_ctx top2_config five)
      (aggregatedSearch (fresh_ctx top2_config five) five None) (two_contributed @ [Release 1]))"
  unfolding five_narrow_start
  by (simp add: session_eval two_contributed_def five_def i1_def i2_def top2_config_def insert_commute)

lemma all_settled_step:
  assumes "sess_inv s" "all_settled s"
  shows "all_settled (sess_step ctx s e) \<and> delivered (sess_step ctx s e) = delivered s"
proof (cases e)
  case (Fetched i outcome cb)
  have "\<not> (i < length (status s) \<and> status s ! i = Fetching)"
    using assms(2) by (auto simp: all_settled_nth is_settled_def)
  then show ?thesis using Fetched assms(2) by auto
next
  case (Release i)
  have q: "queue s = []"
  proof (cases "queue s")
    case (Cons j js)
    then have "j < length (status s) \<and> status s ! j = Queued"
      using assms(1) by (simp add: sess_inv_def queue_ok_def)
    then show ?thesis using assms(2) by (auto simp: all_settled_nth is_settled_def)
  qed simp
  show ?thesis
  proof (cases "i < length (status s)")
    case False
    then show ?thesis using Release assms(2) by simp
  next
    case True
    show ?thesis
    proof (cases "status s ! i")
      case (Returned r)
      let ?s = "s\<lparr>status := (status s)[i := Released r], running := running s - 1\<rparr>"
      have stop: "sess_tryRun ctx ?s = ?s" by (rule sess_tryRun_stop) (simp add: q)
      have "\<And>j. j < length (status s) \<Longrightarrow> is_settled ((status s)[i := Released r] ! j)"
      proof -
        fix j assume j: "j < length (status s)"
        show "is_settled ((status s)[i := Released r] ! j)"
          using assms(2) j by (cases "j = i") (simp_all add: all_settled_nth is_settled_def)
      qed
      then have "all_settled ?s" using assms(2) by (simp add: all_settled_nth)
      then show ?thesis using Release True Returned stop by simp
    qed (use Release True assms(2) in simp_all)
  qed
next
  case Abort
  then show ?thesis using assms(2) by (simp add: all_settled_def)
qed

lemma all_settled_quiet:
  "sess_inv s \<Longrightarrow> all_settled s \<Longrightarrow> delivered (sess_run ctx s es) = delivered s"
proof (induction es arbitrary: s)
  case Nil
  then show ?case by (simp add: sess_run_Nil)
next
  case (Cons e es)
  have "delivered (sess_run ctx (sess_step ctx s e) es) = delivered (sess_step ctx s e)"
    using Cons.IH[OF sess_step_inv[OF Cons.prems(1)]] all_settled_step[OF Cons.prems] by blast
  then show ?case unfolding sess_run_Cons using all_settled_step[OF Cons.prems] by simp
qed




text \<open>
  The amended claim C8 on two selected sources and a signal that is already
  aborted.
\<close>

theorem pre_aborted_call_witness:
  "pair \<noteq> [] \<and>
   result (aggregatedSearch (fresh_ctx default_config five) pair (Some True)) =
     Rejected AbortError \<and>
   searched (aggregatedSearch (fresh_ctx default_config five) pair (Some True)) = [] \<and>
   searched (sess_run (fresh_ctx default_config five)
     (aggregatedSearch (fresh_ctx default_config five) pair (Some True))
     [Release 0, Fetched 0 (Inr [i1]) CbReturns, Abort]) = []"
proof -
  have ne: "pair \<noteq> []" by (simp add: pair_def)
  note th = pre_aborted_call[of pair "fresh_ctx default_config five"
      "[Release 0, Fetched 0 (Inr [i1]) CbReturns, Abort]"]
  show ?thesis using th ne by simp
qed

text \<open>
  Claim C8 as stated fails for an empty selection: the empty-selection check
  comes first, and the call resolves although the signal is aborted.
\<close>

theorem pre_aborted_empty_counterexample:
  "result (aggregatedSearch (fresh_ctx default_config five) [] (Some True)) = Resolved \<and>
   result (aggregatedSearch (fresh_ctx default_config five) [] (Some True)) \<noteq> Rejected AbortError"
  by (simp add: aggregatedSearch_def no_session_def)

text \<open>
  Claim C10 on two sources: the signal fires first, then both sources come
  back with new items, and the callback is never called.
\<close>

theorem no_delivery_after_abort_witness:
  "signal (sess_run (fresh_ctx default_config five)
     (aggregatedSearch (fresh_ctx default_config five) pair (Some False)) [Abort]) = Some True \<and>
   delivered (sess_run (fresh_ctx default_config five)
     (aggregatedSearch (fresh_ctx default_config five) pair (Some False))
     ([Abort] @ [Fetched 0 (Inr [i1]) CbReturns, Fetched 1 (Inr [i2]) CbReturns])) = []"
proof -
  let ?ctx = "fresh_ctx default_config five"
  have f: "signal (sess_run ?ctx (aggregatedSearch ?ctx pair (Some False)) [Abort]) = Some True"
    and d: "delivered (sess_run ?ctx (aggregatedSearch ?ctx pair (Some False)) [Abort]) = []"
    unfolding pair_start by (simp_all add: session_eval)
  show ?thesis
    using no_delivery_after_abort[OF f, of "[Fetched 0 (Inr [i1]) CbReturns, Fetched 1 (Inr [i2]) CbReturns]"]
      f d by simp
qed

lemma clash_done:
  "sess_run clash_ctx (aggregatedSearch clash_ctx [''a_b'', ''a''] None) clash_run =
     \<lparr>dynamicLimit = 3, orderedAPIs = [''a_b'', ''a''], topK = 4, running = 2, queue = [],
      status = [Returned None, Returned None], aborted = False, signal = None,
      seen = {''a_b_c''}, reachedTopK = 1, perSourceControllers = [], ctrl_aborted = {},
      signal_listeners = [], delivered = [[clash1]], searched = [0, 1], result = Resolved\<rparr>"
  unfolding clash_start
  by (simp add: session_eval clash_run_def clash1_def clash2_def clash_ctx_def default_config_def)

text \<open>
  Claim C9.  The key of an item is its source code, an underscore and its
  id.  The items (\<open>a_b\<close>, \<open>c\<close>) and (\<open>a\<close>, \<open>b_c\<close>) differ in both components and
  have the same key; in a session over the sources \<open>a_b\<close> and \<open>a\<close> that
  return them in this order only the first is handed to the callback, the
  session resolves, and whatever happens afterwards the second is never
  delivered.
\<close>

theorem dedup_key_collision:
  "dedup_key item = source_code item @ ''_'' @ vod_id item \<and>
   source_code clash1 \<noteq> source_code clash2 \<and> vod_id clash1 \<noteq> vod_id clash2 \<and>
   dedup_key clash1 = dedup_key clash2 \<and>
   delivered (sess_run clash_ctx (aggregatedSearch clash_ctx [''a_b'', ''a''] None) clash_run) =
     [[clash1]] \<and>
   result (sess_run clash_ctx (aggregatedSearch clash_ctx [''a_b'', ''a''] None) clash_run) =
     Resolved \<and>
   delivered (sess_run clash_ctx (aggregatedSearch clash_ctx [''a_b'', ''a''] None)
     (clash_run @ es)) = [[clash1]]"
proof -
  let ?s = "sess_run clash_ctx (aggregatedSearch clash_ctx [''a_b'', ''a''] None) clash_run"
  have inv: "sess_inv ?s" by (rule sess_run_inv[OF aggregatedSearch_inv])
  have st: "all_settled ?s" unfolding clash_done by (simp add: all_settled_def is_settled_def)
  have d: "delivered ?s = [[clash1]]" and r: "result ?s = Resolved"
    unfolding clash_done by simp_all
  have "delivered (sess_run clash_ctx ?s es) = delivered ?s"
    by (rule all_settled_quiet[OF inv st])
  then have q: "delivered (sess_run clash_ctx (aggregatedSearch clash_ctx [''a_b'', ''a''] None)
     (clash_run @ es)) = [[clash1]]"
    unfolding sess_run_append using d by simp
  have k: "dedup_key clash1 = dedup_key clash2" "source_code clash1 \<noteq> source_code clash2"
    "vod_id clash1 \<noteq> vod_id clash2"
    by (simp_all add: clash1_def clash2_def item_of_def dedup_key_def)
  show ?thesis using k d r q by (simp add: dedup_key_def)
qed

text \<open>Claim C9 with a late repetition of the second source's answer.\<close>

theorem dedup_key_collision_witness:
  "dedup_key clash1 = ''a_b_c'' \<and> dedup_key clash2 = ''a_b_c'' \<and>
   delivered (sess_run clash_ctx (aggregatedSearch clash_ctx [''a_b'', ''a''] None)
     (clash_run @ [Release 1, Fetched 1 (Inr [clash2]) CbReturns])) = [[clash1]]"
  using dedup_key_collision[of clash1 "[Release 1, Fetched 1 (Inr [clash2]) CbReturns]"]
  by (simp add: clash1_def clash2_def item_of_def dedup_key_def)

end
